theory Spec2Isabelle
  imports Complex_Main "HOL-Library.AList"
begin

section \<open>Strings as the scripts use them\<close>

text \<open>
  The sources are TypeScript and JavaScript. A string is modelled as a list of 8-bit
  characters, one per code unit, so the model covers the code units below 256 (Latin-1).
  Times are numbers of milliseconds (\<open>Date.now()\<close>) or of seconds (elapsed time) and are
  modelled as reals; every reading of the clock is an input of the operation that reads it.
\<close>

definition isWhiteSpace :: "char \<Rightarrow> bool" where
  \<comment> \<open>what \<open>trim()\<close> strips and what \<open>\s\<close> matches: TAB, LF, VT, FF, CR, SPACE, NBSP\<close>
  "isWhiteSpace c =
     (c \<in> set [CHR 0x09, CHR 0x0A, CHR 0x0B, CHR 0x0C, CHR 0x0D, CHR 0x20, CHR 0xA0])"

definition isLineTerminator :: "char \<Rightarrow> bool" where
  \<comment> \<open>what the regular expression \<open>.\<close> does not match: LF, CR\<close>
  "isLineTerminator c = (c \<in> set [CHR 0x0A, CHR 0x0D])"

definition isDigit :: "char \<Rightarrow> bool" where
  \<comment> \<open>the class \<open>\d\<close>\<close>
  "isDigit c = (c \<in> set ''0123456789'')"

definition isLowerOrUnderscore :: "char \<Rightarrow> bool" where
  \<comment> \<open>the class \<open>[a-z_]\<close>\<close>
  "isLowerOrUnderscore c = (c \<in> set ''abcdefghijklmnopqrstuvwxyz_'')"

definition trim :: "string \<Rightarrow> string" where
  "trim s = rev (dropWhile isWhiteSpace (rev (dropWhile isWhiteSpace s)))"

fun lowerChar :: "char \<Rightarrow> char" where
  \<comment> \<open>\<open>toLowerCase\<close> on one code unit, written on its bits (\<open>b0\<close> the lowest): the
      letters A to Z (65 to 90) and the Latin-1 capitals (192 to 222 without 215) get
      bit 5 set, which adds 32; see \<open>lowerChar_code_unit\<close> below\<close>
  "lowerChar (Char b0 b1 b2 b3 b4 b5 b6 b7) =
     (if b6 \<and> \<not> b5 \<and>
         ((\<not> b7 \<and> (b0 \<or> b1 \<or> b2 \<or> b3 \<or> b4) \<and> \<not> (b4 \<and> b3 \<and> (b2 \<or> (b1 \<and> b0))))
          \<or> (b7 \<and> \<not> (b0 \<and> b1 \<and> b2 \<and> b3 \<and> b4) \<and> \<not> (b0 \<and> b1 \<and> b2 \<and> \<not> b3 \<and> b4)))
      then Char b0 b1 b2 b3 b4 True b6 b7
      else Char b0 b1 b2 b3 b4 b5 b6 b7)"

definition toLowerCase :: "string \<Rightarrow> string" where
  "toLowerCase s = map lowerChar s"

definition startsWith :: "string \<Rightarrow> string \<Rightarrow> bool" where
  \<comment> \<open>\<open>s.startsWith(p)\<close>\<close>
  "startsWith s p = (take (length p) s = p)"

fun includes' :: "string \<Rightarrow> string \<Rightarrow> bool" where
  \<comment> \<open>\<open>s.includes(p)\<close>\<close>
  "includes' [] p = (p = [])"
| "includes' (c # cs) p = (startsWith (c # cs) p \<or> includes' cs p)"

fun splitWords :: "string \<Rightarrow> string \<Rightarrow> string list" where
  \<comment> \<open>\<open>text.split(/\s+/).filter(w => w.length > 0)\<close>, the first argument being the word
      read so far\<close>
  "splitWords acc [] = (if acc = [] then [] else [acc])"
| "splitWords acc (c # cs) =
     (if isWhiteSpace c then (if acc = [] then splitWords [] cs else acc # splitWords [] cs)
      else splitWords (acc @ [c]) cs)"

subsection \<open>The shapes of regular expression the noise filter uses\<close>

definition reContainsI :: "string list \<Rightarrow> string \<Rightarrow> bool" where
  \<comment> \<open>\<open>/a|b|c/i\<close> for literal alternatives\<close>
  "reContainsI alts t = list_ex (\<lambda>a. includes' (toLowerCase t) (toLowerCase a)) alts"

definition reExactI :: "string list \<Rightarrow> string \<Rightarrow> bool" where
  \<comment> \<open>\<open>/^(a|b|c)$/i\<close> for literal alternatives\<close>
  "reExactI alts t = list_ex (\<lambda>a. toLowerCase t = toLowerCase a) alts"

definition rePrefixI :: "string \<Rightarrow> string \<Rightarrow> bool" where
  \<comment> \<open>\<open>/^a/i\<close> for a literal\<close>
  "rePrefixI a t = startsWith (toLowerCase t) (toLowerCase a)"

definition rePeople :: "string \<Rightarrow> bool" where
  \<comment> \<open>\<open>/^People\d*$/i\<close>\<close>
  "rePeople t = (startsWith (toLowerCase t) ''people'' \<and> list_all isDigit (drop 6 t))"

definition reIconName :: "string \<Rightarrow> bool" where
  \<comment> \<open>\<open>/^[a-z_]+$/\<close>\<close>
  "reIconName t = (t \<noteq> [] \<and> list_all isLowerOrUnderscore t)"

definition reShort :: "string \<Rightarrow> bool" where
  \<comment> \<open>\<open>/^.{0,2}$/\<close>\<close>
  "reShort t = (length t \<le> 2 \<and> list_all (\<lambda>c. \<not> isLineTerminator c) t)"


section \<open>Segments\<close>

text \<open>
  A segment as both sides exchange it. The fields \<open>text\<close> and \<open>end\<close> of the sources are
  \<open>text'\<close> and \<open>end'\<close> here; the agent's caption objects also carry an index and, in the
  current content script, a word count.
\<close>

record Segment =
  speaker :: string
  text' :: string
  start :: real
  end' :: real

record AgentSegment = Segment +
  index :: nat
  wordCount :: "nat option"

section \<open>The automation agent (extension/content.js)\<close>

text \<open>
  The file holds two content scripts, an earlier one and the current one; they differ in
  the exit phrases, in how the speaker of a node is found, in the noise filter, in the
  minimum length for an unknown speaker and in how a caption object is stamped. \<open>V1\<close> is
  the earlier script, \<open>V2\<close> the current one.
\<close>

datatype version = V1 | V2

definition EXIT_PHRASES :: "version \<Rightarrow> string list" where
  "EXIT_PHRASES ver =
     [''notetaker, please leave'', ''note taker, please leave'',
      ''bot, please leave'', ''notu, please leave'']
     @ (case ver of
          V1 \<Rightarrow> []
        | V2 \<Rightarrow> [''notu silahkan keluar'', ''notu keluar'', ''notu out'', ''notu exit'',
                 ''bot keluar'', ''bot silahkan keluar''])"

definition UI_PATTERNS :: "version \<Rightarrow> (string \<Rightarrow> bool) list" where
  "UI_PATTERNS ver =
     [reContainsI [''you left the meeting'', ''return to home screen'', ''leave call'', ''feedback''],
      reContainsI [''audio and video'', ''learn more'', ''anda telah keluar'', ''You'' @ [CHR 0x27] @ ''ve left''],
      reExactI [''Meeting details''],
      reExactI [''Share screen''],
      reExactI [''Send a reaction''],
      rePrefixI ''Turn on captions'',
      rePrefixI ''Raise hand'',
      reExactI [''Chat with everyone''],
      reExactI [''Meeting tools''],
      reExactI [''Call ends soon''],
      reExactI [''More options''],
      rePeople,
      reExactI [''Meeting timer''],
      reExactI [''Hand raises''],
      reContainsI [''This call is open to anyone''],
      reExactI [''info'', ''chat'', ''apps'', ''alarm'', ''mood'', ''meeting_room''],
      reExactI [''computer_arrow_up'', ''computer_arrow_down''],
      reExactI [''back_hand'', ''closed_caption'', ''closed_caption_off''],
      reExactI [''arrow_drop_down'', ''chat_bubble'', ''epg-''],
      reIconName,
      rePrefixI ''Press Down Arrow'',
      reContainsI [''hover tray'', ''Escape to close''],
      reShort,
      reExactI [''Notu AI'']]
     @ (case ver of V1 \<Rightarrow> [] | V2 \<Rightarrow> [reContainsI [''Indonesian'', ''English'']])"

definition minUnknownLength :: "version \<Rightarrow> nat" where
  \<comment> \<open>\<open>speaker === 'Unknown Speaker' && text.length < 50\<close> in the earlier script, \<open>< 10\<close> in
      the current one\<close>
  "minUnknownLength ver = (case ver of V1 \<Rightarrow> 50 | V2 \<Rightarrow> 10)"

subsection \<open>What the scripts read of a node\<close>

text \<open>
  A node handed to \<open>processCaption\<close> is given by what the two scripts read of it.
  \<^item> \<open>badgeText\<close>: the text content of the first element inside the node that matches the
    badge selectors, if there is one (the earlier script's \<open>getSpeaker\<close>).
  \<^item> \<open>nameCandidates\<close>: the elements that the walk of the current script's \<open>getSpeaker\<close>
    meets, in the order in which it looks at them, over the node and up to four
    ancestors: \<open>NameElement\<close> is the text content of an element found under the first or
    the second priority, \<open>SelectorMatch\<close> the text content, the \<open>alt\<close> and the
    \<open>aria-label\<close> attribute of an element found by one of the standard selectors.
  \<^item> \<open>textContent\<close>: the text content of the node's clone once the badges are removed.
\<close>

datatype candidate =
    NameElement string
  | SelectorMatch string "string option" "string option"

record captionNode =
  badgeText :: "string option"
  nameCandidates :: "candidate list"
  textContent :: string

definition getText :: "captionNode \<Rightarrow> string" where
  \<comment> \<open>\<open>clone.textContent?.trim() || ''\<close>\<close>
  "getText node = trim (textContent node)"

definition trimmedAttribute :: "string option \<Rightarrow> string" where
  \<comment> \<open>\<open>el.getAttribute(a)?.trim()\<close>, an absent attribute read as the empty string: both are
      falsy, and a name has to be non-empty\<close>
  "trimmedAttribute a = (case a of None \<Rightarrow> [] | Some v \<Rightarrow> trim v)"

fun candidateName :: "candidate \<Rightarrow> string option" where
  \<comment> \<open>the name the walk returns at this element, if it does:
      \<open>name && name.length > 0 && name !== 'Unknown Speaker'\<close>, and for a standard selector
      also \<open>!txt.match(/^\d+$/)\<close>\<close>
  "candidateName (NameElement t) =
     (if trim t \<noteq> [] \<and> trim t \<noteq> ''Unknown Speaker'' then Some (trim t) else None)"
| "candidateName (SelectorMatch t alt ariaLabel) =
     (let txt = (if trim t \<noteq> [] then trim t
                 else if trimmedAttribute alt \<noteq> [] then trimmedAttribute alt
                 else trimmedAttribute ariaLabel)
      in if txt \<noteq> [] \<and> txt \<noteq> ''Unknown Speaker'' \<and> \<not> list_all isDigit txt then Some txt
         else None)"

fun firstName :: "candidate list \<Rightarrow> string option" where
  \<comment> \<open>the first name the walk returns\<close>
  "firstName [] = None"
| "firstName (c # cs) = (case candidateName c of Some n \<Rightarrow> Some n | None \<Rightarrow> firstName cs)"

subsection \<open>The state\<close>

datatype Message =
    MsgStatus string "string option"
  | MsgCaption AgentSegment
  | MsgFlush "AgentSegment list" nat real
  | MsgCompleted string "AgentSegment list" nat real

text \<open>
  \<open>leaveMeeting\<close> is an \<open>async\<close> function. Up to its first \<open>await\<close> it runs inside its
  caller; what is left of the call then waits, while other handlers run, until it is
  resumed. A call that waits is kept with the reason it was given and the final segments
  it has collected. Which of several waiting calls ends first is for the page to decide;
  here they end oldest first.
\<close>

record pendingLeave =
  reason :: string
  finalSegments :: "AgentSegment list"

text \<open>
  \<open>botState\<close>, with the variables of the enclosing closures that the handlers below
  write: \<open>lastSpeaker\<close> of \<open>startCaptionScraping\<close>, the interval \<open>checkEnd\<close> of
  \<open>watchForMeetingEnd\<close> and its pending maximum-duration timeout; and with the calls of
  \<open>leaveMeeting\<close> that wait to be resumed, oldest first. An observer or timer is \<open>True\<close>
  while it can still fire. The active-segment table is a JavaScript \<open>Map\<close>: an association
  list in insertion order, where setting a present key keeps its place (\<open>AList.update\<close>).

  \<open>lastSpeaker\<close> starts as \<open>'Unknown Speaker'\<close> in the earlier script and as \<open>null\<close> in the
  current one. The current script reads it only in \<open>lastSpeaker || 'Speaker'\<close> and assigns
  it non-empty strings only, so its \<open>null\<close> is the empty string here.
\<close>

record botState =
  isActive :: bool
  isInMeeting :: bool
  isCaptionEnabled :: bool
  captionObserver :: bool
  lastCaption :: string
  segmentCount :: nat
  startTime :: real
  flushTimer :: bool
  segments :: "AgentSegment list"
  activeSegments :: "(string \<times> AgentSegment) list"
  lastSpeaker :: string
  checkEnd :: bool
  maxDurationTimer :: bool
  leaving :: "pendingLeave list"

definition initialBotState :: "version \<Rightarrow> botState" where
  \<comment> \<open>the state when the script is loaded, \<open>lastSpeaker\<close> as \<open>startCaptionScraping\<close> declares
      it\<close>
  "initialBotState ver =
     \<lparr>isActive = False, isInMeeting = False, isCaptionEnabled = False, captionObserver = False,
      lastCaption = [], segmentCount = 0, startTime = 0, flushTimer = False,
      segments = [], activeSegments = [],
      lastSpeaker = (case ver of V1 \<Rightarrow> ''Unknown Speaker'' | V2 \<Rightarrow> []),
      checkEnd = False, maxDurationTimer = False, leaving = []\<rparr>"

subsection \<open>Leaving\<close>

definition collectFinalSegments :: "botState \<Rightarrow> AgentSegment list" where
  \<comment> \<open>\<open>[...botState.segments, ...Array.from(botState.activeSegments.values())]\<close>\<close>
  "collectFinalSegments s = segments s @ map snd (activeSegments s)"

definition leaveMeeting_enter :: "string \<Rightarrow> botState \<Rightarrow> botState \<times> Message list" where
  \<comment> \<open>\<open>leaveMeeting(reason)\<close> up to its first \<open>await\<close>: it reports the status, disconnects
      the observer, clears the flush timer and collects the final segments\<close>
  "leaveMeeting_enter r s =
     (s\<lparr>captionObserver := False, flushTimer := False,
         leaving := leaving s @ [\<lparr>reason = r, finalSegments = collectFinalSegments s\<rparr>]\<rparr>,
      [MsgStatus ''leaving'' (Some r)])"

definition currentObject :: "botState \<Rightarrow> AgentSegment \<Rightarrow> AgentSegment" where
  \<comment> \<open>The collected list holds the caption objects themselves, and a continuation that is
      processed before the list is sent changes an active one in place. An object is known
      by its index, which it gets from the segment count when it is created and keeps; it
      stays in the finalized list or in the table. This reads the object as it is now.\<close>
  "currentObject s g =
     (case find (\<lambda>a. index a = index g) (collectFinalSegments s) of
        Some a \<Rightarrow> a
      | None \<Rightarrow> g)"

definition leaveMeeting_resume :: "real \<Rightarrow> botState \<Rightarrow> botState \<times> Message list" where
  \<comment> \<open>the rest of the oldest waiting call, at clock reading \<open>now\<close>: after the attempts to
      click a leave control, which touch neither \<open>botState\<close> nor the message channel, it
      sends \<open>completed\<close> and clears the two activity flags\<close>
  "leaveMeeting_resume now s =
     (case leaving s of
        [] \<Rightarrow> (s, [])
      | p # ps \<Rightarrow>
          (s\<lparr>isActive := False, isInMeeting := False, leaving := ps\<rparr>,
           [MsgCompleted (reason p) (map (currentObject s) (finalSegments p))
              (length (finalSegments p)) ((now - startTime s) / 1000)]))"

subsection \<open>Caption scraping\<close>

definition getSpeaker :: "version \<Rightarrow> captionNode \<Rightarrow> botState \<Rightarrow> string \<times> botState" where
  \<comment> \<open>\<open>getSpeaker(node)\<close>. The earlier script returns the trimmed badge text or, when that
      is missing or empty, the last speaker. The current script returns the first name of
      its walk, which it also stores as the last speaker, or else
      \<open>lastSpeaker || 'Speaker'\<close>\<close>
  "getSpeaker ver node s =
     (case ver of
        V1 \<Rightarrow>
          ((case badgeText node of
              Some t \<Rightarrow> if trim t \<noteq> [] then trim t else lastSpeaker s
            | None \<Rightarrow> lastSpeaker s), s)
      | V2 \<Rightarrow>
          (case firstName (nameCandidates node) of
             Some name \<Rightarrow> (name, s\<lparr>lastSpeaker := name\<rparr>)
           | None \<Rightarrow> (if lastSpeaker s \<noteq> [] then lastSpeaker s else ''Speaker'', s)))"

definition makeSegment :: "version \<Rightarrow> real \<Rightarrow> string \<Rightarrow> string \<Rightarrow> nat \<Rightarrow> AgentSegment" where
  \<comment> \<open>the caption object built for an accepted fragment at elapsed time \<open>currentTime\<close>; the
      earlier script reads the clock once more for the end, which is taken to be the same
      reading here\<close>
  "makeSegment ver currentTime spk txt idx =
     (case ver of
        V1 \<Rightarrow> \<lparr>speaker = spk, text' = txt, start = currentTime, end' = currentTime,
                index = idx, wordCount = None\<rparr>
      | V2 \<Rightarrow>
          (let wc = length (splitWords [] txt);
               estimatedDuration = max 1 (real wc / 2.5)
           in \<lparr>speaker = spk, text' = txt, start = max 0 (currentTime - estimatedDuration),
                end' = currentTime, index = idx, wordCount = Some wc\<rparr>))"

definition mergeSegment :: "string \<Rightarrow> AgentSegment \<Rightarrow> botState \<Rightarrow> botState" where
  \<comment> \<open>the segment management at the end of \<open>processCaption\<close>: merge or create new. Only the
      current script has a word count to copy into the existing object\<close>
  "mergeSegment spk segment s =
     (case map_of (activeSegments s) spk of
        Some existing \<Rightarrow>
          if startsWith (text' segment) (take 20 (text' existing))
          then s\<lparr>activeSegments :=
                   AList.update spk
                     (existing\<lparr>text' := text' segment, end' := end' segment,
                        wordCount := (case wordCount segment of None \<Rightarrow> wordCount existing
                                      | Some wc \<Rightarrow> Some wc)\<rparr>)
                     (activeSegments s)\<rparr>
          else s\<lparr>segments := segments s @ [existing],
                  activeSegments := AList.update spk segment (activeSegments s)\<rparr>
      | None \<Rightarrow> s\<lparr>activeSegments := AList.update spk segment (activeSegments s)\<rparr>)"

definition isFiltered :: "version \<Rightarrow> string \<Rightarrow> string \<Rightarrow> botState \<Rightarrow> bool" where
  \<comment> \<open>the early returns of \<open>processCaption\<close> before the exit-phrase check, in their order\<close>
  "isFiltered ver spk txt s =
     ((txt = [] \<or> txt = lastCaption s)
      \<or> toLowerCase txt = toLowerCase spk
      \<or> list_ex (\<lambda>pattern. pattern txt) (UI_PATTERNS ver)
      \<or> (spk = ''Unknown Speaker'' \<and> length txt < minUnknownLength ver))"

definition hasExitPhrase :: "version \<Rightarrow> string \<Rightarrow> bool" where
  \<comment> \<open>\<open>EXIT_PHRASES.some(p => normalized.includes(p))\<close>\<close>
  "hasExitPhrase ver txt = list_ex (\<lambda>p. includes' (toLowerCase txt) p) (EXIT_PHRASES ver)"

definition processFragment ::
  "version \<Rightarrow> real \<Rightarrow> string \<Rightarrow> string \<Rightarrow> botState \<Rightarrow> botState \<times> Message list" where
  \<comment> \<open>the body of \<open>processCaption\<close> below its two reads, at clock reading \<open>now\<close>, for the
      speaker \<open>spk\<close> and the text \<open>txt\<close> that were read\<close>
  "processFragment ver now spk txt s =
     (if isFiltered ver spk txt s then (s, [])
      else if hasExitPhrase ver txt then leaveMeeting_enter ''exit_phrase'' s
      else
        (let s1 = s\<lparr>lastCaption := txt, segmentCount := segmentCount s + 1,
                     lastSpeaker := spk\<rparr>;
             currentTime = (now - startTime s1) / 1000;
             segment = makeSegment ver currentTime spk txt (segmentCount s1)
         in (mergeSegment spk segment s1, [MsgCaption segment])))"

definition processCaption ::
  "version \<Rightarrow> real \<Rightarrow> captionNode \<Rightarrow> botState \<Rightarrow> botState \<times> Message list" where
  \<comment> \<open>\<open>processCaption(node)\<close>: \<open>getText\<close>, then \<open>getSpeaker\<close>, then the body\<close>
  "processCaption ver now node s =
     (let txt = getText node in
      case getSpeaker ver node s of (spk, s0) \<Rightarrow> processFragment ver now spk txt s0)"

definition acceptedFragment :: "version \<Rightarrow> string \<Rightarrow> string \<Rightarrow> botState \<Rightarrow> bool" where
  \<comment> \<open>the fragment passes every early return and reaches the segment management\<close>
  "acceptedFragment ver spk txt s = (\<not> isFiltered ver spk txt s \<and> \<not> hasExitPhrase ver txt)"

definition accepted :: "version \<Rightarrow> captionNode \<Rightarrow> botState \<Rightarrow> bool" where
  \<comment> \<open>\<open>processCaption\<close> accepts the node: its fragment reaches the segment management\<close>
  "accepted ver node s =
     (case getSpeaker ver node s of (spk, s0) \<Rightarrow> acceptedFragment ver spk (getText node) s0)"

text \<open>
  The observer's callback hands every node of the delivered batch to \<open>processCaption\<close>, one
  after the other and without a suspension point, also after one of them has disconnected
  the observer.
\<close>

fun processNodes ::
  "version \<Rightarrow> real \<Rightarrow> captionNode list \<Rightarrow> botState \<Rightarrow> botState \<times> Message list" where
  "processNodes ver now [] s = (s, [])"
| "processNodes ver now (node # nodes) s =
     (case processCaption ver now node s of
        (s1, msgs1) \<Rightarrow>
          (case processNodes ver now nodes s1 of (s2, msgs2) \<Rightarrow> (s2, msgs1 @ msgs2)))"

datatype agentEvent =
    Mutations "captionNode list"
  | EndCheck bool
  | MaxDuration
  | StopCommand
  | FlushTimerTick
  | LeaveResumes

definition agentStep :: "version \<Rightarrow> real \<Rightarrow> agentEvent \<Rightarrow> botState \<Rightarrow> botState \<times> Message list" where
  \<comment> \<open>one turn of the page's event loop at clock reading \<open>now\<close>: a batch of mutation records
      (the nodes they hand to \<open>processCaption\<close>, in order), a tick of the \<open>checkEnd\<close> interval
      with what \<open>hasMeetingEnded()\<close> returns, the maximum-duration timeout, the controller's
      stop command, a tick of the flush interval, or the oldest waiting \<open>leaveMeeting\<close> being
      resumed\<close>
  "agentStep ver now ev s =
     (case ev of
        Mutations nodes \<Rightarrow> if captionObserver s then processNodes ver now nodes s else (s, [])
      | EndCheck ended \<Rightarrow>
          if checkEnd s \<and> ended then leaveMeeting_enter ''meeting_ended'' (s\<lparr>checkEnd := False\<rparr>)
          else (s, [])
      | MaxDuration \<Rightarrow>
          if maxDurationTimer s
          then leaveMeeting_enter ''max_duration'' (s\<lparr>maxDurationTimer := False\<rparr>)
          else (s, [])
      | StopCommand \<Rightarrow> if isActive s then leaveMeeting_enter ''user_requested'' s else (s, [])
      | FlushTimerTick \<Rightarrow>
          if flushTimer s \<and> activeSegments s \<noteq> []
          then (s, [MsgFlush (map snd (activeSegments s)) (segmentCount s)
                      ((now - startTime s) / 1000)])
          else (s, [])
      | LeaveResumes \<Rightarrow> leaveMeeting_resume now s)"

fun runAgent :: "version \<Rightarrow> (real \<times> agentEvent) list \<Rightarrow> botState \<Rightarrow> botState \<times> Message list" where
  "runAgent ver [] s = (s, [])"
| "runAgent ver ((now, ev) # evs) s =
     (case agentStep ver now ev s of
        (s1, msgs1) \<Rightarrow> (case runAgent ver evs s1 of (s2, msgs2) \<Rightarrow> (s2, msgs1 @ msgs2)))"

definition recordingState :: "version \<Rightarrow> real \<Rightarrow> botState" where
  \<comment> \<open>\<open>botState\<close> once \<open>runBot\<close>, started at clock reading \<open>t0\<close>, has joined and begun to
      scrape, flush and watch; \<open>isCaptionEnabled\<close>, which \<open>enableCaptions\<close> may have set and
      nothing below reads, is left as it was\<close>
  "recordingState ver t0 =
     (initialBotState ver)\<lparr>isActive := True, isInMeeting := True, captionObserver := True,
       startTime := t0, flushTimer := True, checkEnd := True, maxDurationTimer := True\<rparr>"

fun completedPayloads :: "Message list \<Rightarrow> AgentSegment list list" where
  \<comment> \<open>the segment lists of the \<open>completed\<close> messages among the emitted ones\<close>
  "completedPayloads [] = []"
| "completedPayloads (MsgCompleted r segs n d # ms) = segs # completedPayloads ms"
| "completedPayloads (m # ms) = completedPayloads ms"

section \<open>The segment manager (src/captionScraper.ts)\<close>

text \<open>
  \<open>SegmentManager\<close> hands out the segment objects themselves: \<open>addCaption\<close> changes an
  active object in place, \<open>getSegmentsForFlush\<close> returns the active objects and not copies,
  while \<open>finalizeSegment\<close> and \<open>markFlushed\<close> push copies (\<open>{ ...segment }\<close>). So the
  objects live in a store, the list \<open>objects\<close>, a reference is a position in it, and the
  finalized list and the table of active segments (a \<open>Map\<close>, in insertion order) hold
  references. Nothing is ever removed from the store.
\<close>

record SegmentManager =
  objects :: "Segment list"
  sm_segments :: "nat list"
  sm_activeSegments :: "(string \<times> nat) list"
  segmentIndex :: nat
  sm_startTime :: real
  flushedCount :: nat

definition newSegmentManager :: "real \<Rightarrow> SegmentManager" where
  \<comment> \<open>the constructor, run at clock reading \<open>now\<close>\<close>
  "newSegmentManager now =
     \<lparr>objects = [], sm_segments = [], sm_activeSegments = [], segmentIndex = 0,
      sm_startTime = now, flushedCount = 0\<rparr>"

definition addCaption :: "real \<Rightarrow> string \<Rightarrow> string \<Rightarrow> SegmentManager \<Rightarrow> SegmentManager" where
  "addCaption now spk txt m =
     (let elapsed = (now - sm_startTime m) / 1000 in
      case map_of (sm_activeSegments m) spk of
        Some activeSegment \<Rightarrow>
          m\<lparr>objects := (objects m)
               [activeSegment := (objects m ! activeSegment)\<lparr>text' := txt, end' := elapsed\<rparr>]\<rparr>
      | None \<Rightarrow>
          m\<lparr>objects := objects m @ [\<lparr>speaker = spk, text' = txt, start = elapsed, end' = elapsed\<rparr>],
             sm_activeSegments := AList.update spk (length (objects m)) (sm_activeSegments m)\<rparr>)"

definition finalizeSegment :: "string \<Rightarrow> SegmentManager \<Rightarrow> SegmentManager \<times> nat option" where
  \<comment> \<open>returns the active object; what it pushes is a copy\<close>
  "finalizeSegment spk m =
     (case map_of (sm_activeSegments m) spk of
        Some segment \<Rightarrow>
          (m\<lparr>objects := objects m @ [objects m ! segment],
              sm_segments := sm_segments m @ [length (objects m)],
              sm_activeSegments := AList.delete spk (sm_activeSegments m)\<rparr>,
           Some segment)
      | None \<Rightarrow> (m, None))"

definition getSegmentsForFlush :: "SegmentManager \<Rightarrow> nat list" where
  "getSegmentsForFlush m =
     drop (flushedCount m) (sm_segments m) @ map snd (sm_activeSegments m)"

definition markFlushed :: "SegmentManager \<Rightarrow> SegmentManager" where
  "markFlushed m =
     (let active = map snd (sm_activeSegments m);
          n = length (objects m)
      in m\<lparr>objects := objects m @ map (\<lambda>r. objects m ! r) active,
            sm_segments := sm_segments m @ [n ..< n + length active],
            flushedCount := length (sm_segments m) + length active,
            sm_activeSegments := []\<rparr>)"

definition getAllSegments :: "SegmentManager \<Rightarrow> nat list" where
  "getAllSegments m = sm_segments m @ map snd (sm_activeSegments m)"

definition readSegments :: "SegmentManager \<Rightarrow> nat list \<Rightarrow> Segment list" where
  \<comment> \<open>what a holder of the references reads in state \<open>m\<close>\<close>
  "readSegments m rs = map (\<lambda>r. objects m ! r) rs"

datatype smOp =
    AddCaption real string string
  | FinalizeSegment string
  | GetSegmentsForFlush
  | MarkFlushed

fun smStep :: "smOp \<Rightarrow> SegmentManager \<Rightarrow> SegmentManager" where
  \<comment> \<open>the state after one call; \<open>getSegmentsForFlush\<close> only reads\<close>
  "smStep (AddCaption now spk txt) m = addCaption now spk txt m"
| "smStep (FinalizeSegment spk) m = fst (finalizeSegment spk m)"
| "smStep GetSegmentsForFlush m = m"
| "smStep MarkFlushed m = markFlushed m"

fun smRun :: "smOp list \<Rightarrow> SegmentManager \<Rightarrow> SegmentManager" where
  "smRun [] m = m"
| "smRun (c # cs) m = smRun cs (smStep c m)"

definition smInvariant :: "SegmentManager \<Rightarrow> bool" where
  \<comment> \<open>what holds of every state reached from the constructor: the flushed boundary lies
      within the finalized list, every reference held points into the store, the table has
      one entry per speaker, and no object is held twice\<close>
  "smInvariant m =
     (flushedCount m \<le> length (sm_segments m)
      \<and> list_all (\<lambda>r. r < length (objects m)) (sm_segments m @ map snd (sm_activeSegments m))
      \<and> distinct (map fst (sm_activeSegments m))
      \<and> distinct (sm_segments m @ map snd (sm_activeSegments m)))"

section \<open>The orchestrator (src/meetBot.ts)\<close>

datatype BotStatus =
    Pending | Joining | WaitingAdmission | InMeeting | Recording | Leaving | Completed | Failed

record BotSession =
  sessionId :: string
  meetingId :: string
  url :: string
  status :: BotStatus
  session_segments :: "Segment list"
  startedAt :: "real option"
  completedAt :: "real option"
  error :: "string option"

text \<open>
  \<open>leave\<close> is an \<open>async\<close> method with two places where it waits: for the stop command
  to be posted to the page, when there is a page, and for \<open>cleanup\<close>. A call that waits
  is kept with the place where it waits; other handlers run meanwhile.
\<close>

datatype leaveStage = AwaitStop | AwaitCleanup

text \<open>
  A \<open>MeetBot\<close>: its session, its own segment list and its re-entry flag; a timer, the
  browser context and the page are \<open>True\<close> while they exist; and the calls of \<open>leave\<close>
  that wait to be resumed, oldest first.
\<close>

record MeetBot =
  session :: BotSession
  bot_segments :: "Segment list"
  isLeaving :: bool
  flushInterval :: bool
  timeoutTimer :: bool
  browserContext :: bool
  page :: bool
  leaveCalls :: "leaveStage list"

text \<open>What a \<open>MeetBot\<close> emits to its listeners.\<close>

datatype BotEvent =
    EvStatus BotStatus "string option"
  | EvCaption string Segment
  | EvFlush string "Segment list" nat real
  | EvCompleted string string "Segment list" real

definition newMeetBot :: "string \<Rightarrow> string \<Rightarrow> string \<Rightarrow> MeetBot" where
  \<comment> \<open>the constructor; \<open>sid\<close> is the session id it generates from the clock and a random
      number\<close>
  "newMeetBot sid mid u =
     \<lparr>session = \<lparr>sessionId = sid, meetingId = mid, url = u, status = Pending,
                  session_segments = [], startedAt = None, completedAt = None, error = None\<rparr>,
      bot_segments = [], isLeaving = False, flushInterval = False, timeoutTimer = False,
      browserContext = False, page = False, leaveCalls = []\<rparr>"

definition getSession :: "MeetBot \<Rightarrow> BotSession" where
  "getSession b = (session b)\<lparr>session_segments := bot_segments b\<rparr>"

definition truthy :: "string option \<Rightarrow> bool" where
  \<comment> \<open>an optional string counts as true when it is present and not empty\<close>
  "truthy m = (case m of None \<Rightarrow> False | Some t \<Rightarrow> t \<noteq> [])"

definition setStatus :: "BotStatus \<Rightarrow> string option \<Rightarrow> MeetBot \<Rightarrow> MeetBot \<times> BotEvent list" where
  "setStatus st msg b =
     (b\<lparr>session := (session b)\<lparr>status := st,
            error := (if st = Failed \<and> truthy msg then msg else error (session b))\<rparr>\<rparr>,
      [EvStatus st msg])"

definition elapsedSince :: "real option \<Rightarrow> real \<Rightarrow> real" where
  \<comment> \<open>\<open>Date.now() - (this.session.startedAt?.getTime() || Date.now())\<close>\<close>
  "elapsedSince started now =
     (case started of None \<Rightarrow> 0 | Some t \<Rightarrow> if t = 0 then 0 else now - t)"

record CaptionData =
  cd_speaker :: string
  cd_text :: string
  cd_index :: nat
  cd_timestamp :: real

definition handleCaption :: "CaptionData \<Rightarrow> MeetBot \<Rightarrow> MeetBot \<times> BotEvent list" where
  "handleCaption d b =
     (let segment = \<lparr>speaker = cd_speaker d, text' = cd_text d,
                      start = cd_timestamp d / 1000, end' = cd_timestamp d / 1000\<rparr>
      in (b\<lparr>bot_segments := bot_segments b @ [segment]\<rparr>,
          [EvCaption (meetingId (session b)) segment]))"

definition flushSegments :: "real \<Rightarrow> MeetBot \<Rightarrow> BotEvent list" where
  "flushSegments now b =
     (if bot_segments b = [] then []
      else [EvFlush (meetingId (session b)) (bot_segments b) (length (bot_segments b))
              (elapsedSince (startedAt (session b)) now / 1000)])"

definition cleanup :: "MeetBot \<Rightarrow> MeetBot" where
  \<comment> \<open>\<open>cleanup()\<close> run to its end, as \<open>join\<close> awaits it before it rethrows\<close>
  "cleanup b = b\<lparr>flushInterval := False, timeoutTimer := False, browserContext := False,
                  page := False\<rparr>"

definition leave_flush :: "real \<Rightarrow> MeetBot \<Rightarrow> MeetBot \<times> BotEvent list" where
  \<comment> \<open>\<open>leave\<close> from its final flush up to where it waits for \<open>cleanup\<close>. By then \<open>cleanup\<close>
      has cleared the timers and is closing the browser context or, when there is none,
      has dropped the page\<close>
  "leave_flush now b =
     (let ev = flushSegments now b;
          b1 = b\<lparr>flushInterval := False, timeoutTimer := False\<rparr>;
          b2 = (if browserContext b1 then b1 else b1\<lparr>page := False\<rparr>)
      in (b2\<lparr>leaveCalls := leaveCalls b2 @ [AwaitCleanup]\<rparr>, ev))"

definition leave_enter :: "real \<Rightarrow> string \<Rightarrow> MeetBot \<Rightarrow> MeetBot \<times> BotEvent list" where
  \<comment> \<open>\<open>leave(reason)\<close> up to where it first waits, at clock reading \<open>now\<close>; the reason is
      only logged\<close>
  "leave_enter now r b =
     (case setStatus Leaving None b of
        (b1, ev1) \<Rightarrow>
          if page b1 then (b1\<lparr>leaveCalls := leaveCalls b1 @ [AwaitStop]\<rparr>, ev1)
          else (case leave_flush now b1 of (b2, ev2) \<Rightarrow> (b2, ev1 @ ev2)))"

definition leave_resume :: "real \<Rightarrow> MeetBot \<Rightarrow> MeetBot \<times> BotEvent list" where
  \<comment> \<open>the oldest waiting call of \<open>leave\<close> goes on, at clock reading \<open>now\<close>: after the stop
      command to the final flush, after \<open>cleanup\<close>, which ends with neither context nor
      page, to its end\<close>
  "leave_resume now b =
     (case leaveCalls b of
        [] \<Rightarrow> (b, [])
      | AwaitStop # calls \<Rightarrow> leave_flush now (b\<lparr>leaveCalls := calls\<rparr>)
      | AwaitCleanup # calls \<Rightarrow>
          (let b1 = b\<lparr>leaveCalls := calls, browserContext := False, page := False\<rparr>;
               b2 = b1\<lparr>session := (session b1)\<lparr>completedAt := Some now,
                          session_segments := bot_segments b1\<rparr>\<rparr>
           in setStatus Completed None b2))"

definition handleMeetingEnd :: "real \<Rightarrow> MeetBot \<Rightarrow> MeetBot \<times> BotEvent list" where
  \<comment> \<open>\<open>handleMeetingEnd()\<close> up to where the \<open>leave\<close> it calls first waits; nothing follows
      that call\<close>
  "handleMeetingEnd now b =
     (if isLeaving b then (b, [])
      else
        (let b1 = b\<lparr>isLeaving := True\<rparr>;
             duration = (case startedAt (session b1) of None \<Rightarrow> 0 | Some t \<Rightarrow> (now - t) / 1000);
             ev = [EvCompleted (meetingId (session b1)) ''meeting_ended'' (bot_segments b1) duration]
         in case leave_enter now ''meeting_ended'' b1 of (b2, ev2) \<Rightarrow> (b2, ev @ ev2)))"

record CompletionData =
  cp_reason :: string
  cp_segments :: "AgentSegment list option"
  cp_segmentCount :: nat
  cp_duration :: real

definition handleCompletion :: "real \<Rightarrow> CompletionData \<Rightarrow> MeetBot \<Rightarrow> MeetBot \<times> BotEvent list" where
  \<comment> \<open>\<open>handleCompletion(data)\<close> up to where the \<open>leave\<close> it calls first waits; nothing
      follows that call\<close>
  "handleCompletion now d b =
     (let b1 = (case cp_segments d of
                  Some segs \<Rightarrow>
                    if segs \<noteq> []
                    then b\<lparr>bot_segments :=
                           map (\<lambda>s. \<lparr>speaker = speaker s, text' = text' s, start = start s,
                                      end' = end' s\<rparr>) segs\<rparr>
                    else b
                | None \<Rightarrow> b);
          ev = [EvCompleted (meetingId (session b1)) (cp_reason d) (bot_segments b1) (cp_duration d)]
      in case leave_enter now (cp_reason d) b1 of (b2, ev2) \<Rightarrow> (b2, ev @ ev2))"

subsection \<open>The diagnostic channel\<close>

text \<open>
  \<open>text.match(/\[Caption\]\s*(.+?):\s*(.+)/)\<close>: the leftmost place where the marker is
  followed by white space, a shortest non-empty run without line terminator, a colon,
  white space and a non-empty run without line terminator. The white space is taken
  greedily and given back one character at a time while the rest does not match.
\<close>

definition afterColon :: "string \<Rightarrow> string option" where
  \<comment> \<open>\<open>\s*(.+)\<close> at the start of the given string: the second group\<close>
  "afterColon r =
     (let rest = dropWhile isWhiteSpace r in
      if rest \<noteq> [] then Some (takeWhile (\<lambda>c. \<not> isLineTerminator c) rest)
      else (case filter (\<lambda>c. \<not> isLineTerminator c) r of
              [] \<Rightarrow> None
            | c # cs \<Rightarrow> Some [last (c # cs)]))"

fun speakerGroup :: "string \<Rightarrow> string \<Rightarrow> (string \<times> string) option" where
  \<comment> \<open>\<open>(.+?):\s*(.+)\<close> at the start of the second argument, the first being the part of
      the first group read so far\<close>
  "speakerGroup acc [] = None"
| "speakerGroup acc (c # cs) =
     (if isLineTerminator c then None
      else (case cs of
              [] \<Rightarrow> None
            | d # ds \<Rightarrow>
                if d = CHR '':''
                then (case afterColon ds of
                        Some g2 \<Rightarrow> Some (acc @ [c], g2)
                      | None \<Rightarrow> speakerGroup (acc @ [c]) cs)
                else speakerGroup (acc @ [c]) cs))"

fun afterMarker :: "nat \<Rightarrow> string \<Rightarrow> (string \<times> string) option" where
  \<comment> \<open>\<open>\s*(.+?):\s*(.+)\<close> with at most \<open>k\<close> characters of leading white space\<close>
  "afterMarker 0 r = speakerGroup [] r"
| "afterMarker (Suc k) r =
     (case speakerGroup [] (drop (Suc k) r) of
        Some m \<Rightarrow> Some m
      | None \<Rightarrow> afterMarker k r)"

fun matchCaption :: "string \<Rightarrow> (string \<times> string) option" where
  "matchCaption [] = None"
| "matchCaption (c # cs) =
     (if startsWith (c # cs) ''[Caption]''
      then (case afterMarker (length (takeWhile isWhiteSpace (drop 9 (c # cs)))) (drop 9 (c # cs)) of
              Some m \<Rightarrow> Some m
            | None \<Rightarrow> matchCaption cs)
      else matchCaption cs)"

definition parseStatus :: "real \<Rightarrow> string \<Rightarrow> MeetBot \<Rightarrow> MeetBot \<times> BotEvent list" where
  \<comment> \<open>the chain of status phrases at the head of \<open>parseExtensionLog\<close>\<close>
  "parseStatus now t b =
     (if includes' t ''IN_MEETING status sent'' then setStatus InMeeting None b
      else if includes' t ''Successfully joined meeting'' then setStatus InMeeting None b
      else if includes' t ''Bot is now recording'' then setStatus Recording None b
      else if includes' t ''Captions enabled'' then (b, [])
      else if includes' t ''Meeting ended detected'' \<or> includes' t ''Leaving meeting''
      then handleMeetingEnd now b
      else if includes' t ''Could not join meeting'' \<or> includes' t ''Blocked from joining''
      then setStatus Failed (Some ''Could not join meeting'') b
      else (b, []))"

definition parseExtensionLog :: "real \<Rightarrow> string \<Rightarrow> MeetBot \<Rightarrow> MeetBot \<times> BotEvent list" where
  "parseExtensionLog now t b =
     (case parseStatus now t b of
        (b1, ev1) \<Rightarrow>
          (case matchCaption t of
             Some (g1, g2) \<Rightarrow>
               (case handleCaption
                       \<lparr>cd_speaker = trim g1, cd_text = trim g2,
                        cd_index = length (bot_segments b1),
                        cd_timestamp = elapsedSince (startedAt (session b1)) now\<rparr> b1 of
                  (b2, ev2) \<Rightarrow> (b2, ev1 @ ev2))
           | None \<Rightarrow> (b1, ev1)))"

subsection \<open>Structured messages\<close>

datatype ExtensionData =
    DataStatus string "string option" "string option"
  | DataCaption CaptionData
  | DataFlush nat
  | DataCompleted CompletionData
  | DataLoaded
  | DataOther string

definition handleExtensionMessage :: "real \<Rightarrow> ExtensionData \<Rightarrow> MeetBot \<Rightarrow> MeetBot \<times> BotEvent list" where
  \<comment> \<open>\<open>DataStatus st message error\<close> is a \<open>status\<close> message with \<open>data.status = st\<close>\<close>
  "handleExtensionMessage now d b =
     (case d of
        DataStatus extStatus msg err \<Rightarrow>
          if extStatus = ''in_meeting'' then setStatus InMeeting None b
          else if extStatus = ''recording'' then setStatus Recording None b
          else if extStatus = ''waiting_admission'' then setStatus WaitingAdmission msg b
          else if extStatus = ''failed'' then setStatus Failed err b
          else if extStatus = ''joining'' then setStatus Joining None b
          else (b, [])
      | DataCaption c \<Rightarrow> handleCaption c b
      | DataFlush n \<Rightarrow> (b, [])
      | DataCompleted c \<Rightarrow> handleCompletion now c b
      | DataLoaded \<Rightarrow> (b, [])
      | DataOther ty \<Rightarrow> (b, []))"

datatype botInput =
    LogLine string
  | ExtMessage ExtensionData
  | FlushTick
  | MaxDurationTimeout
  | LeaveCall string
  | LeaveContinues

definition botStep :: "real \<Rightarrow> botInput \<Rightarrow> MeetBot \<Rightarrow> MeetBot \<times> BotEvent list" where
  \<comment> \<open>what reaches a \<open>MeetBot\<close> after its construction: a console line of the extension, a
      structured message, its two timers (which fire only while they are set), \<open>leave\<close> called
      from outside, and the oldest waiting \<open>leave\<close> being resumed\<close>
  "botStep now i b =
     (case i of
        LogLine t \<Rightarrow> if includes' t ''[Notu.AI Bot]'' then parseExtensionLog now t b else (b, [])
      | ExtMessage d \<Rightarrow> handleExtensionMessage now d b
      | FlushTick \<Rightarrow> if flushInterval b then (b, flushSegments now b) else (b, [])
      | MaxDurationTimeout \<Rightarrow>
          if timeoutTimer b then leave_enter now ''max_duration_reached'' b else (b, [])
      | LeaveCall r \<Rightarrow> leave_enter now r b
      | LeaveContinues \<Rightarrow> leave_resume now b)"

subsection \<open>Joining\<close>



datatype setupFailure = BeforeLaunch string | AfterLaunch string

fun failureMessage :: "setupFailure \<Rightarrow> string" where
  "failureMessage (BeforeLaunch msg) = msg"
| "failureMessage (AfterLaunch msg) = msg"

fun launches :: "setupFailure option \<Rightarrow> bool" where
  \<comment> \<open>whether \<open>join\<close> gets as far as calling \<open>chromium.launchPersistentContext\<close>\<close>
  "launches (Some (BeforeLaunch msg)) = False"
| "launches other = True"

definition join_begin :: "MeetBot \<Rightarrow> MeetBot \<times> BotEvent list" where
  \<comment> \<open>\<open>join()\<close> up to the preparation of the browser\<close>
  "join_begin b = setStatus Joining None b"

definition join_setup ::
  "setupFailure option \<Rightarrow> MeetBot \<Rightarrow> MeetBot \<times> BotEvent list \<times> string option" where
  \<comment> \<open>\<open>join()\<close> from there up to the wait. \<open>setupError\<close> is the exception thrown on the way,
      if any: before the launch (the extension's manifest is missing, the profile directory
      cannot be made) or from the launch on (launch, navigation or the start trigger failed).
      The third component is the message of the error \<open>join\<close> rethrows from its \<open>catch\<close>,
      if it throws here\<close>
  "join_setup setupError b =
     (case setupError of
        Some f \<Rightarrow>
          (case setStatus Failed (Some (failureMessage f)) b of
             (b1, ev1) \<Rightarrow> (cleanup b1, ev1, Some (failureMessage f)))
      | None \<Rightarrow>
          (case setStatus WaitingAdmission None (b\<lparr>browserContext := True, page := True\<rparr>) of
             (b1, ev1) \<Rightarrow> (b1, ev1, None)))"

definition join_enter ::
  "setupFailure option \<Rightarrow> MeetBot \<Rightarrow> MeetBot \<times> BotEvent list \<times> string option" where
  "join_enter setupError b =
     (case join_begin b of
        (b1, ev1) \<Rightarrow>
          (case join_setup setupError b1 of (b2, ev2, thrown) \<Rightarrow> (b2, ev1 @ ev2, thrown)))"

definition join_resume :: "real \<Rightarrow> bool \<Rightarrow> MeetBot \<Rightarrow> MeetBot \<times> BotEvent list \<times> string option" where
  \<comment> \<open>\<open>join()\<close> from the value \<open>joined\<close> of the wait on, at clock reading \<open>now\<close>\<close>
  "join_resume now joined b =
     (if \<not> joined
      then (case setStatus Failed (Some ''Extension failed to join meeting'') b of
              (b1, ev1) \<Rightarrow> (cleanup b1, ev1, Some ''Extension failed to join meeting''))
      else (case setStatus InMeeting None b of
              (b1, ev1) \<Rightarrow>
                (case setStatus Recording None
                        (b1\<lparr>session := (session b1)\<lparr>startedAt := Some now\<rparr>\<rparr>) of
                   (b2, ev2) \<Rightarrow>
                     (b2\<lparr>flushInterval := True, timeoutTimer := True\<rparr>, ev1 @ ev2, None))))"

section \<open>The session registry (src/sessionManager.ts)\<close>

record BotSessionManager =
  sessions :: "(string \<times> MeetBot) list"
  socketConnected :: bool
  finalizedMeetings :: "string set"

text \<open>What the registry does to the outside: socket events, HTTP posts, browser launches.\<close>

datatype Effect =
    Emit string string
  | PostSegments string "Segment list"
  | PostFinalize string string "Segment list" real
  | LaunchBrowser string

definition emitToBackend :: "string \<Rightarrow> string \<Rightarrow> BotSessionManager \<Rightarrow> Effect list" where
  "emitToBackend event mid m = (if socketConnected m then [Emit event mid] else [])"

definition finalizeMeeting_enter ::
  "string \<Rightarrow> BotSession \<Rightarrow> BotSessionManager \<Rightarrow> BotSessionManager \<times> Effect option" where
  \<comment> \<open>\<open>finalizeMeeting\<close> up to the \<open>await\<close> of the post, with the post it issues, if any\<close>
  "finalizeMeeting_enter mid sess m =
     (if mid \<in> finalizedMeetings m then (m, None)
      else (m\<lparr>finalizedMeetings := insert mid (finalizedMeetings m)\<rparr>,
            Some (PostFinalize mid (sessionId sess) (session_segments sess)
                    (case (startedAt sess, completedAt sess) of
                       (Some t0, Some t1) \<Rightarrow> (t1 - t0) / 1000
                     | _ \<Rightarrow> 0))))"

definition finalizeMeeting_resume :: "bool \<Rightarrow> string \<Rightarrow> BotSessionManager \<Rightarrow> BotSessionManager" where
  \<comment> \<open>after the post: \<open>ok\<close> when it succeeded, otherwise the \<open>catch\<close> branch\<close>
  "finalizeMeeting_resume ok mid m =
     (if ok then m else m\<lparr>finalizedMeetings := finalizedMeetings m - {mid}\<rparr>)"

definition finalizeMeeting ::
  "bool \<Rightarrow> string \<Rightarrow> BotSession \<Rightarrow> BotSessionManager \<Rightarrow> BotSessionManager \<times> Effect list" where
  "finalizeMeeting ok mid sess m =
     (case finalizeMeeting_enter mid sess m of
        (m1, None) \<Rightarrow> (m1, [])
      | (m1, Some post) \<Rightarrow> (finalizeMeeting_resume ok mid m1, [post]))"

definition onCompleted ::
  "real \<Rightarrow> bool \<Rightarrow> string \<Rightarrow> MeetBot \<Rightarrow> Segment list \<Rightarrow> BotSessionManager \<Rightarrow> BotSessionManager \<times> Effect list" where
  \<comment> \<open>the listener for \<open>completed\<close> that \<open>startSession\<close> registers on the bot of meeting
      \<open>mid\<close>, run to its end; \<open>b\<close> is that bot, \<open>segs\<close> the segments of the event and \<open>ok\<close>
      whether the finalize post succeeds\<close>
  "onCompleted now ok mid b segs m =
     (let e1 = emitToBackend ''bot_meeting_ended'' mid m in
      case finalizeMeeting ok mid
             ((getSession b)\<lparr>session_segments := segs, completedAt := Some now\<rparr>) m of
        (m1, e2) \<Rightarrow>
          (m1\<lparr>sessions := AList.delete mid (sessions m1)\<rparr>,
           e1 @ e2 @ emitToBackend ''bot_status_change'' mid m1))"

fun onBotEvent ::
  "real \<Rightarrow> bool \<Rightarrow> string \<Rightarrow> MeetBot \<Rightarrow> BotEvent \<Rightarrow> BotSessionManager \<Rightarrow> BotSessionManager \<times> Effect list" where
  \<comment> \<open>the four listeners registered by \<open>startSession\<close>\<close>
  "onBotEvent now ok mid b (EvStatus st msg) m = (m, emitToBackend ''bot_status_change'' mid m)"
| "onBotEvent now ok mid b (EvCaption mid' seg) m = (m, emitToBackend ''caption_added'' mid' m)"
| "onBotEvent now ok mid b (EvFlush mid' segs n d) m = (m, [PostSegments mid segs])"
| "onBotEvent now ok mid b (EvCompleted mid' r segs d) m = onCompleted now ok mid b segs m"

fun onBotEvents ::
  "real \<Rightarrow> bool \<Rightarrow> string \<Rightarrow> MeetBot \<Rightarrow> BotEvent list \<Rightarrow> BotSessionManager \<Rightarrow> BotSessionManager \<times> Effect list" where
  "onBotEvents now ok mid b [] m = (m, [])"
| "onBotEvents now ok mid b (e # es) m =
     (case onBotEvent now ok mid b e m of
        (m1, fx1) \<Rightarrow> (case onBotEvents now ok mid b es m1 of (m2, fx2) \<Rightarrow> (m2, fx1 @ fx2)))"

datatype startResult = Returned BotSession | Thrown string | Waiting

definition startSession_enter ::
  "real \<Rightarrow> string \<Rightarrow> setupFailure option \<Rightarrow> string \<Rightarrow> string \<Rightarrow> BotSessionManager
     \<Rightarrow> BotSessionManager \<times> Effect list \<times> startResult" where
  \<comment> \<open>\<open>startSession(meetingId, url)\<close> up to the wait inside \<open>join\<close>. \<open>sid\<close> is the id a new
      bot would generate and \<open>setupError\<close> the exception a new bot would meet before the
      wait. The call returns the existing session, fails with the setup error, or is left
      waiting for admission. The bot is an object that the map refers to, so what \<open>join\<close>
      does to it is written back under its key\<close>
  "startSession_enter now sid setupError mid u m =
     (case map_of (sessions m) mid of
        Some existing \<Rightarrow> (m, [], Returned (getSession existing))
      | None \<Rightarrow>
          (let b0 = newMeetBot sid mid u;
               m1 = m\<lparr>sessions := AList.update mid b0 (sessions m)\<rparr>
           in case join_begin b0 of
                (b1, evs1) \<Rightarrow>
                  (case onBotEvents now True mid b1 evs1 m1 of
                     (m2, fx1) \<Rightarrow>
                       (case join_setup setupError b1 of
                          (b2, evs2, thrown) \<Rightarrow>
                            (case onBotEvents now True mid b2 evs2 m2 of
                               (m3, fx2) \<Rightarrow>
                                 (let fx = fx1 @ (if launches setupError then [LaunchBrowser mid]
                                                  else []) @ fx2
                                  in case thrown of
                                       Some msg \<Rightarrow>
                                         (m3\<lparr>sessions := AList.delete mid (sessions m3)\<rparr>, fx,
                                          Thrown msg)
                                     | None \<Rightarrow>
                                         (m3\<lparr>sessions := AList.update mid b2 (sessions m3)\<rparr>, fx,
                                          Waiting)))))))"

definition startSession_resume ::
  "real \<Rightarrow> bool \<Rightarrow> string \<Rightarrow> BotSessionManager
     \<Rightarrow> BotSessionManager \<times> Effect list \<times> startResult" where
  \<comment> \<open>the rest of a waiting \<open>startSession\<close> once the wait inside \<open>join\<close> has returned
      \<open>joined\<close>\<close>
  "startSession_resume now joined mid m =
     (case map_of (sessions m) mid of
        None \<Rightarrow> (m, [], Thrown [])
      | Some b0 \<Rightarrow>
          (case join_resume now joined b0 of
             (b1, evs, thrown) \<Rightarrow>
               (case onBotEvents now True mid b1 evs m of
                  (m1, fx) \<Rightarrow>
                    (case thrown of
                       Some msg \<Rightarrow> (m1\<lparr>sessions := AList.delete mid (sessions m1)\<rparr>, fx, Thrown msg)
                     | None \<Rightarrow>
                         (m1\<lparr>sessions := AList.update mid b1 (sessions m1)\<rparr>, fx,
                          Returned (getSession b1))))))"

fun isFinalize :: "Effect \<Rightarrow> bool" where
  "isFinalize (PostFinalize mid sid segs d) = True"
| "isFinalize e = False"

fun isLaunch :: "Effect \<Rightarrow> bool" where
  "isLaunch (LaunchBrowser mid) = True"
| "isLaunch e = False"

section \<open>Notions used in the statements\<close>

definition activeRefs :: "SegmentManager \<Rightarrow> nat set" where
  \<comment> \<open>the objects the table of active segments holds\<close>
  "activeRefs m = snd ` set (sm_activeSegments m)"

definition represents :: "SegmentManager \<Rightarrow> nat \<Rightarrow> nat \<Rightarrow> bool" where
  \<comment> \<open>in state \<open>m\<close> the flush snapshot holds \<open>r'\<close>, which reads the same as \<open>r\<close>; the two
      are one object, or both are out of reach of \<open>addCaption\<close>\<close>
  "represents m r r' =
     (r' \<in> set (getSegmentsForFlush m) \<and> r < length (objects m)
      \<and> objects m ! r' = objects m ! r
      \<and> (r = r' \<or> (r \<notin> activeRefs m \<and> r' \<notin> activeRefs m)))"

definition carriesName :: "version \<Rightarrow> captionNode \<Rightarrow> string \<Rightarrow> bool" where
  \<comment> \<open>the node shows the name to the script: in its badge for the earlier script, as the
      first name of the walk for the current one\<close>
  "carriesName ver node name =
     (case ver of
        V1 \<Rightarrow> (case badgeText node of Some t \<Rightarrow> trim t = name \<and> name \<noteq> [] | None \<Rightarrow> False)
      | V2 \<Rightarrow> firstName (nameCandidates node) = Some name)"

definition named :: "string \<Rightarrow> string \<Rightarrow> captionNode" where
  \<comment> \<open>a caption node with one speaker badge that reads \<open>name\<close> and with the text \<open>content\<close>
      beside it\<close>
  "named name content =
     \<lparr>badgeText = Some name, nameCandidates = [NameElement name], textContent = content\<rparr>"

definition unnamed :: "string \<Rightarrow> captionNode" where
  \<comment> \<open>a node with the text \<open>content\<close> around which no name is found\<close>
  "unnamed content = \<lparr>badgeText = None, nameCandidates = [], textContent = content\<rparr>"

fun observe :: "version \<Rightarrow> (real \<times> captionNode) list \<Rightarrow> botState \<Rightarrow> botState" where
  \<comment> \<open>\<open>botState\<close> after \<open>processCaption\<close> has been called on the given nodes, each at its
      clock reading\<close>
  "observe ver [] s = s"
| "observe ver ((now, node) # obs) s = observe ver obs (fst (processCaption ver now node s))"

fun observed :: "version \<Rightarrow> (real \<times> captionNode) list \<Rightarrow> botState \<Rightarrow> (string \<times> string) list" where
  \<comment> \<open>the speaker and the text that \<open>processCaption\<close> reads of each node in such a run\<close>
  "observed ver [] s = []"
| "observed ver ((now, node) # obs) s =
     (fst (getSpeaker ver node s), getText node)
     # observed ver obs (fst (processCaption ver now node s))"

fun acceptedOf ::
  "version \<Rightarrow> string \<Rightarrow> (real \<times> captionNode) list \<Rightarrow> botState \<Rightarrow> (real \<times> string) list" where
  \<comment> \<open>the clock readings and texts of the fragments in such a run that \<open>getSpeaker\<close> gives
      to speaker \<open>sp\<close> and that are accepted\<close>
  "acceptedOf ver sp [] s = []"
| "acceptedOf ver sp ((now, node) # obs) s =
     (if fst (getSpeaker ver node s) = sp \<and> accepted ver node s then [(now, getText node)]
      else [])
     @ acceptedOf ver sp obs (fst (processCaption ver now node s))"

fun strictChain :: "string list \<Rightarrow> bool" where
  \<comment> \<open>each text is a strict extension of the one before\<close>
  "strictChain [] = True"
| "strictChain [x] = True"
| "strictChain (x # y # zs) = (startsWith y x \<and> y \<noteq> x \<and> strictChain (y # zs))"

definition estimatedStart :: "version \<Rightarrow> real \<Rightarrow> string \<Rightarrow> real" where
  \<comment> \<open>the start that \<open>processCaption\<close> stamps on a new caption object at elapsed time \<open>t\<close>\<close>
  "estimatedStart ver t txt =
     (case ver of
        V1 \<Rightarrow> t
      | V2 \<Rightarrow> max 0 (t - max 1 (real (length (splitWords [] txt)) / 2.5)))"

definition agentInvariant :: "botState \<Rightarrow> bool" where
  \<comment> \<open>the table of active segments has one entry per speaker, filed under the speaker of the
      segment\<close>
  "agentInvariant s =
     (distinct (map fst (activeSegments s))
      \<and> list_all (\<lambda>(k, g). speaker g = k) (activeSegments s))"

definition captionsOf :: "string \<Rightarrow> (real \<times> string \<times> string) list \<Rightarrow> (real \<times> string) list" where
  \<comment> \<open>the clock readings and texts of the captions of speaker \<open>sp\<close>\<close>
  "captionsOf sp caps = map (\<lambda>(now, spk, tx). (now, tx)) (filter (\<lambda>(now, spk, tx). spk = sp) caps)"

definition addCaptions :: "(real \<times> string \<times> string) list \<Rightarrow> SegmentManager \<Rightarrow> SegmentManager" where
  \<comment> \<open>\<open>addCaption\<close> called for each of the captions in turn\<close>
  "addCaptions caps m = smRun (map (\<lambda>(now, spk, tx). AddCaption now spk tx) caps) m"

definition activeValue :: "string \<Rightarrow> SegmentManager \<Rightarrow> Segment option" where
  \<comment> \<open>what the active segment of speaker \<open>sp\<close> reads, if there is one\<close>
  "activeValue sp m = map_option (\<lambda>a. objects m ! a) (map_of (sm_activeSegments m) sp)"

section \<open>Properties of the string functions\<close>

lemma lowerChar_code_unit:
  "of_char (lowerChar c) =
     (let n = (of_char c :: nat) in
      if (65 \<le> n \<and> n \<le> 90) \<or> (192 \<le> n \<and> n \<le> 222 \<and> n \<noteq> 215) then n + 32 else n)"
  by (cases c) (auto simp: Let_def)

lemma trim_whitespace_only:
  assumes "list_all isWhiteSpace content"
  shows "trim content = []"
proof -
  from assms have d: "dropWhile isWhiteSpace content = []"
    by (induction content) auto
  show ?thesis unfolding trim_def d by simp
qed

lemma startsWith_take:
  assumes "startsWith t old"
  shows "startsWith t (take n old)"
proof -
  from assms have "take (length old) t = old"
    by (simp add: startsWith_def)
  then have "take n (take (length old) t) = take n old"
    by simp
  then show ?thesis
    by (simp add: startsWith_def min.commute)
qed

section \<open>Properties of the tables\<close>

lemma update_absent: "map_of al k = None \<Longrightarrow> AList.update k v al = al @ [(k, v)]"
  by (induction al) (auto split: if_splits)

lemma length_delete_present:
  "distinct (map fst al) \<Longrightarrow> map_of al k = Some v \<Longrightarrow> Suc (length (AList.delete k al)) = length al"
proof (induction al)
  case Nil
  then show ?case by simp
next
  case (Cons p al)
  show ?case
  proof (cases "fst p = k")
    case True
    with Cons.prems have "k \<notin> fst ` set al" by auto
    then have "AList.delete k al = al"
      by (simp add: AList.delete_eq filter_id_conv) (auto simp: image_iff)
    with True show ?thesis by (cases p) simp
  next
    case False
    with Cons show ?thesis by (cases p) auto
  qed
qed

section \<open>The agent: the speaker of a node\<close>

lemma getSpeaker_fields [simp]:
  "lastCaption (snd (getSpeaker ver node s)) = lastCaption s"
  "segments (snd (getSpeaker ver node s)) = segments s"
  "activeSegments (snd (getSpeaker ver node s)) = activeSegments s"
  "segmentCount (snd (getSpeaker ver node s)) = segmentCount s"
  "startTime (snd (getSpeaker ver node s)) = startTime s"
  "leaving (snd (getSpeaker ver node s)) = leaving s"
  "captionObserver (snd (getSpeaker ver node s)) = captionObserver s"
  "isActive (snd (getSpeaker ver node s)) = isActive s"
  by (simp_all add: getSpeaker_def split: version.splits option.splits)

lemma getSpeaker_state:
  "snd (getSpeaker ver node s) =
     s\<lparr>lastSpeaker := (case ver of
                          V1 \<Rightarrow> lastSpeaker s
                        | V2 \<Rightarrow> (case firstName (nameCandidates node) of
                                   Some name \<Rightarrow> name
                                 | None \<Rightarrow> lastSpeaker s))\<rparr>"
  by (simp add: getSpeaker_def split: version.splits option.splits)

lemma isFiltered_getSpeaker [simp]:
  "isFiltered ver spk txt (snd (getSpeaker ver' node s)) = isFiltered ver spk txt s"
  by (simp add: isFiltered_def)

lemma candidateName_known: "candidateName c = Some n \<Longrightarrow> n \<noteq> [] \<and> n \<noteq> ''Unknown Speaker''"
  by (cases c) (auto simp: Let_def split: if_splits)

lemma firstName_known: "firstName cs = Some n \<Longrightarrow> n \<noteq> [] \<and> n \<noteq> ''Unknown Speaker''"
  by (induction cs) (auto dest: candidateName_known split: option.splits)

lemma getSpeaker_V2_known:
  assumes "lastSpeaker s \<noteq> ''Unknown Speaker''"
  shows "fst (getSpeaker V2 node s) \<noteq> ''Unknown Speaker''"
    and "lastSpeaker (snd (getSpeaker V2 node s)) \<noteq> ''Unknown Speaker''"
  using assms by (auto simp: getSpeaker_def dest: firstName_known split: option.splits)

lemma getSpeaker_twice:
  "getSpeaker ver node (snd (getSpeaker ver node s))
     = (fst (getSpeaker ver node s), snd (getSpeaker ver node s))"
  by (simp add: getSpeaker_def split: version.splits option.splits)

section \<open>The agent: what one fragment does\<close>

lemma processCaption_fragment:
  "processCaption ver now node s =
     processFragment ver now (fst (getSpeaker ver node s)) (getText node)
       (snd (getSpeaker ver node s))"
  by (simp add: processCaption_def split_def)

lemma accepted_fragment:
  "accepted ver node s =
     acceptedFragment ver (fst (getSpeaker ver node s)) (getText node) s"
  by (simp add: accepted_def acceptedFragment_def split_def)

lemma acceptedFragment_getSpeaker [simp]:
  "acceptedFragment ver spk txt (snd (getSpeaker ver' node s)) = acceptedFragment ver spk txt s"
  by (simp add: acceptedFragment_def)

lemma processFragment_filtered:
  "isFiltered ver spk txt s \<Longrightarrow> processFragment ver now spk txt s = (s, [])"
  by (simp add: processFragment_def)

lemma processFragment_exit:
  "\<not> isFiltered ver spk txt s \<Longrightarrow> hasExitPhrase ver txt \<Longrightarrow>
   processFragment ver now spk txt s = leaveMeeting_enter ''exit_phrase'' s"
  by (simp add: processFragment_def)

lemma processFragment_accepted:
  "acceptedFragment ver spk txt s \<Longrightarrow>
   processFragment ver now spk txt s =
     (mergeSegment spk
        (makeSegment ver ((now - startTime s) / 1000) spk txt (segmentCount s + 1))
        (s\<lparr>lastCaption := txt, segmentCount := segmentCount s + 1, lastSpeaker := spk\<rparr>),
      [MsgCaption (makeSegment ver ((now - startTime s) / 1000) spk txt (segmentCount s + 1))])"
  by (simp add: processFragment_def acceptedFragment_def Let_def)

lemma makeSegment_fields [simp]:
  "speaker (makeSegment ver t spk txt i) = spk"
  "text' (makeSegment ver t spk txt i) = txt"
  "end' (makeSegment ver t spk txt i) = t"
  "index (makeSegment ver t spk txt i) = i"
  by (cases ver; simp add: makeSegment_def Let_def)+

lemma wordCount_makeSegment:
  "wordCount (makeSegment ver t spk txt i) =
     (case ver of V1 \<Rightarrow> None | V2 \<Rightarrow> Some (length (splitWords [] txt)))"
  by (cases ver) (simp_all add: makeSegment_def Let_def)

lemma recordingState_fields [simp]:
  "lastCaption (recordingState ver t0) = []"
  "segments (recordingState ver t0) = []"
  "activeSegments (recordingState ver t0) = []"
  "startTime (recordingState ver t0) = t0"
  "segmentCount (recordingState ver t0) = 0"
  "isActive (recordingState ver t0)"
  "captionObserver (recordingState ver t0)"
  "leaving (recordingState ver t0) = []"
  "lastSpeaker (recordingState ver t0) = (case ver of V1 \<Rightarrow> ''Unknown Speaker'' | V2 \<Rightarrow> [])"
  by (simp_all add: recordingState_def initialBotState_def)

lemma mergeSegment_fields [simp]:
  "lastCaption (mergeSegment spk g s) = lastCaption s"
  "segmentCount (mergeSegment spk g s) = segmentCount s"
  "startTime (mergeSegment spk g s) = startTime s"
  "captionObserver (mergeSegment spk g s) = captionObserver s"
  "isActive (mergeSegment spk g s) = isActive s"
  "leaving (mergeSegment spk g s) = leaving s"
  "lastSpeaker (mergeSegment spk g s) = lastSpeaker s"
  by (simp_all add: mergeSegment_def split: option.splits)

lemma processFragment_new:
  assumes "acceptedFragment ver spk txt s" and "map_of (activeSegments s) spk = None"
  shows "processFragment ver now spk txt s =
     (s\<lparr>lastCaption := txt, segmentCount := segmentCount s + 1, lastSpeaker := spk,
         activeSegments := AList.update spk
           (makeSegment ver ((now - startTime s) / 1000) spk txt (segmentCount s + 1))
           (activeSegments s)\<rparr>,
      [MsgCaption (makeSegment ver ((now - startTime s) / 1000) spk txt (segmentCount s + 1))])"
  using assms(2) by (simp add: processFragment_accepted [OF assms(1)] mergeSegment_def)

lemma processFragment_continue:
  assumes "acceptedFragment ver spk txt s" and "map_of (activeSegments s) spk = Some e"
    and "startsWith txt (take 20 (text' e))"
  shows "processFragment ver now spk txt s =
     (s\<lparr>lastCaption := txt, segmentCount := segmentCount s + 1, lastSpeaker := spk,
         activeSegments := AList.update spk
           (e\<lparr>text' := txt, end' := (now - startTime s) / 1000,
              wordCount := (case ver of V1 \<Rightarrow> wordCount e
                            | V2 \<Rightarrow> Some (length (splitWords [] txt)))\<rparr>)
           (activeSegments s)\<rparr>,
      [MsgCaption (makeSegment ver ((now - startTime s) / 1000) spk txt (segmentCount s + 1))])"
  using assms(2,3)
  by (simp add: processFragment_accepted [OF assms(1)] mergeSegment_def wordCount_makeSegment
      split: version.splits)

lemma processFragment_replace:
  assumes "acceptedFragment ver spk txt s" and "map_of (activeSegments s) spk = Some e"
    and "\<not> startsWith txt (take 20 (text' e))"
  shows "processFragment ver now spk txt s =
     (s\<lparr>lastCaption := txt, segmentCount := segmentCount s + 1, lastSpeaker := spk,
         segments := segments s @ [e],
         activeSegments := AList.update spk
           (makeSegment ver ((now - startTime s) / 1000) spk txt (segmentCount s + 1))
           (activeSegments s)\<rparr>,
      [MsgCaption (makeSegment ver ((now - startTime s) / 1000) spk txt (segmentCount s + 1))])"
  using assms(2,3) by (simp add: processFragment_accepted [OF assms(1)] mergeSegment_def)

lemma completedPayloads_append:
  "completedPayloads (xs @ ys) = completedPayloads xs @ completedPayloads ys"
  by (induction xs rule: completedPayloads.induct) simp_all

lemma carriesName_getSpeaker:
  assumes "carriesName ver node name"
  shows "getSpeaker ver node s = (name, case ver of V1 \<Rightarrow> s | V2 \<Rightarrow> s\<lparr>lastSpeaker := name\<rparr>)"
  using assms
  by (auto simp: carriesName_def getSpeaker_def split: version.splits option.splits)

lemma getSpeaker_same_lastSpeaker:
  "lastSpeaker s' = lastSpeaker s \<Longrightarrow> fst (getSpeaker ver node s') = fst (getSpeaker ver node s)"
  by (simp add: getSpeaker_def split: version.splits option.splits)

section \<open>Rejected fragments\<close>

text \<open>
  Claim C9 says that a short fragment of an unresolved speaker is rejected. In the current
  script \<open>getSpeaker\<close> gives a node without a name the last speaker or, before there is
  one, \<open>Speaker\<close>; so the nine characters \<open>Hello all\<close> in such a node, below the minimum
  length of ten, are accepted: a caption message goes out and a segment of \<open>Speaker\<close> is
  opened.
\<close>

theorem unresolved_speaker_counterexample:
  "firstName (nameCandidates (unnamed ''Hello all'')) = None
   \<and> fst (getSpeaker V2 (unnamed ''Hello all'') (recordingState V2 0)) = ''Speaker''
   \<and> length (getText (unnamed ''Hello all'')) < minUnknownLength V2
   \<and> processCaption V2 5000 (unnamed ''Hello all'') (recordingState V2 0) =
       ((recordingState V2 0)\<lparr>lastCaption := ''Hello all'', segmentCount := 1,
           lastSpeaker := ''Speaker'',
           activeSegments := [(''Speaker'', makeSegment V2 5 ''Speaker'' ''Hello all'' 1)]\<rparr>,
        [MsgCaption (makeSegment V2 5 ''Speaker'' ''Hello all'' 1)])"
proof -
  have t: "getText (unnamed ''Hello all'') = ''Hello all''"
    unfolding unnamed_def by code_simp
  have n: "\<not> list_ex (\<lambda>pattern. pattern ''Hello all'') (UI_PATTERNS V2)"
    by code_simp
  have l: "toLowerCase ''Hello all'' \<noteq> toLowerCase ''Speaker''"
    by code_simp
  have x: "\<not> hasExitPhrase V2 ''Hello all''"
    by code_simp
  have g: "getSpeaker V2 (unnamed ''Hello all'') (recordingState V2 0)
             = (''Speaker'', recordingState V2 0)"
    by (simp add: getSpeaker_def unnamed_def)
  have a: "acceptedFragment V2 ''Speaker'' ''Hello all'' (recordingState V2 0)"
    by (simp add: acceptedFragment_def isFiltered_def n l x)
  have m: "map_of (activeSegments (recordingState V2 0)) ''Speaker'' = None"
    by simp
  have pf: "processCaption V2 5000 (unnamed ''Hello all'') (recordingState V2 0) =
      processFragment V2 5000 ''Speaker'' ''Hello all'' (recordingState V2 0)"
    by (simp add: processCaption_fragment g t)
  have c1: "firstName (nameCandidates (unnamed ''Hello all'')) = None"
    by (simp add: unnamed_def)
  have c2: "fst (getSpeaker V2 (unnamed ''Hello all'') (recordingState V2 0)) = ''Speaker''"
    by (simp add: g)
  have c3: "length (getText (unnamed ''Hello all'')) < minUnknownLength V2"
    by (simp add: t minUnknownLength_def)
  have c4: "processCaption V2 5000 (unnamed ''Hello all'') (recordingState V2 0) =
       ((recordingState V2 0)\<lparr>lastCaption := ''Hello all'', segmentCount := 1,
           lastSpeaker := ''Speaker'',
           activeSegments := [(''Speaker'', makeSegment V2 5 ''Speaker'' ''Hello all'' 1)]\<rparr>,
        [MsgCaption (makeSegment V2 5 ''Speaker'' ''Hello all'' 1)])"
    unfolding pf by (simp add: processFragment_new [OF a m])
  from c1 c2 c3 c4 show ?thesis
    by blast
qed

text \<open>
  Claim C9, as amended. A node whose text content is empty or only white space, or whose
  text is, up to case, the speaker that \<open>getSpeaker\<close> returns for it, or for which
  \<open>getSpeaker\<close> returns \<open>Unknown Speaker\<close> while the text is shorter than the minimum
  length (50 in the earlier script, 10 in the current one), is rejected by \<open>processCaption\<close>:
  no message is emitted, no leave sequence starts, and the state stays as it is but for the
  last speaker that the lookup of the current script may have stored; so the segments, the
  active-segment table, the last caption and the segment count are unchanged. The earlier
  script gives a node without a badge the last speaker, which is \<open>Unknown Speaker\<close> until a
  fragment is accepted. The current script never returns \<open>Unknown Speaker\<close> while the last
  speaker is not that name, as at the start and after every call: it gives a node without a name
  the last speaker or else \<open>Speaker\<close>, so that there the third rule rejects nothing: what
  is rejected is what the first three early returns reject.
\<close>

theorem processCaption_rejects_noise:
  assumes "list_all isWhiteSpace (textContent node)
           \<or> toLowerCase (getText node) = toLowerCase (fst (getSpeaker ver node s))
           \<or> (fst (getSpeaker ver node s) = ''Unknown Speaker''
               \<and> length (getText node) < minUnknownLength ver)"
  shows "snd (processCaption ver now node s) = []
    \<and> fst (processCaption ver now node s)
        = s\<lparr>lastSpeaker := lastSpeaker (fst (processCaption ver now node s))\<rparr>
    \<and> segments (fst (processCaption ver now node s)) = segments s
    \<and> activeSegments (fst (processCaption ver now node s)) = activeSegments s
    \<and> lastCaption (fst (processCaption ver now node s)) = lastCaption s
    \<and> segmentCount (fst (processCaption ver now node s)) = segmentCount s
    \<and> leaving (fst (processCaption ver now node s)) = leaving s
    \<and> (ver = V1 \<longrightarrow> fst (processCaption ver now node s) = s)
    \<and> (badgeText node' = None \<longrightarrow> fst (getSpeaker V1 node' s') = lastSpeaker s')
    \<and> lastSpeaker (recordingState V1 t0) = ''Unknown Speaker''
    \<and> lastSpeaker (recordingState V2 t0) \<noteq> ''Unknown Speaker''
    \<and> (lastSpeaker s' \<noteq> ''Unknown Speaker'' \<longrightarrow>
          fst (getSpeaker V2 node' s') \<noteq> ''Unknown Speaker''
          \<and> lastSpeaker (fst (processCaption V2 now' node' s')) \<noteq> ''Unknown Speaker'')
    \<and> (lastSpeaker s' \<noteq> ''Unknown Speaker'' \<longrightarrow>
          isFiltered V2 (fst (getSpeaker V2 node' s')) tx (snd (getSpeaker V2 node' s'))
            = (tx = [] \<or> tx = lastCaption s'
               \<or> toLowerCase tx = toLowerCase (fst (getSpeaker V2 node' s'))
               \<or> list_ex (\<lambda>pattern. pattern tx) (UI_PATTERNS V2)))
    \<and> (firstName (nameCandidates node') = None \<longrightarrow>
          fst (getSpeaker V2 node' s')
            = (if lastSpeaker s' \<noteq> [] then lastSpeaker s' else ''Speaker''))"
proof -
  let ?s0 = "snd (getSpeaker ver node s)"
  from assms have "isFiltered ver (fst (getSpeaker ver node s)) (getText node) ?s0"
    by (auto simp: isFiltered_def getText_def trim_whitespace_only)
  then have p: "processCaption ver now node s = (?s0, [])"
    by (simp add: processCaption_fragment processFragment_filtered)
  have st: "?s0 = s\<lparr>lastSpeaker := lastSpeaker ?s0\<rparr>"
    by (simp add: getSpeaker_def split: version.splits option.splits)
  have v1: "ver = V1 \<longrightarrow> ?s0 = s"
    by (simp add: getSpeaker_def)
  have known: "lastSpeaker (fst (processCaption V2 now' node' s')) \<noteq> ''Unknown Speaker''"
    if k: "lastSpeaker s' \<noteq> ''Unknown Speaker''"
  proof -
    let ?spk = "fst (getSpeaker V2 node' s')" and ?s1 = "snd (getSpeaker V2 node' s')"
    from getSpeaker_V2_known [OF k] have 1: "?spk \<noteq> ''Unknown Speaker''"
      and 2: "lastSpeaker ?s1 \<noteq> ''Unknown Speaker''"
      by simp_all
    show ?thesis
      unfolding processCaption_fragment
      using 1 2 by (simp add: processFragment_def leaveMeeting_enter_def Let_def)
  qed
  have fall: "fst (getSpeaker V2 node' s')
      = (if lastSpeaker s' \<noteq> [] then lastSpeaker s' else ''Speaker'')"
    if "firstName (nameCandidates node') = None"
    using that by (simp add: getSpeaker_def)
  have b: "fst (getSpeaker V1 node' s') = lastSpeaker s'" if "badgeText node' = None"
    using that by (simp add: getSpeaker_def)
  have e: "fst (processCaption ver now node s)
      = s\<lparr>lastSpeaker := lastSpeaker (fst (processCaption ver now node s))\<rparr>"
    unfolding p fst_conv by (rule st)
  have fields: "snd (processCaption ver now node s) = []"
    "segments (fst (processCaption ver now node s)) = segments s"
    "activeSegments (fst (processCaption ver now node s)) = activeSegments s"
    "lastCaption (fst (processCaption ver now node s)) = lastCaption s"
    "segmentCount (fst (processCaption ver now node s)) = segmentCount s"
    "leaving (fst (processCaption ver now node s)) = leaving s"
    unfolding p by simp_all
  have pv1: "ver = V1 \<longrightarrow> fst (processCaption ver now node s) = s"
    unfolding p fst_conv by (rule v1)
  have r: "lastSpeaker (recordingState V1 t0) = ''Unknown Speaker''"
    "lastSpeaker (recordingState V2 t0) \<noteq> ''Unknown Speaker''"
    by simp_all
  have dead: "isFiltered V2 (fst (getSpeaker V2 node' s')) tx (snd (getSpeaker V2 node' s'))
            = (tx = [] \<or> tx = lastCaption s'
               \<or> toLowerCase tx = toLowerCase (fst (getSpeaker V2 node' s'))
               \<or> list_ex (\<lambda>pattern. pattern tx) (UI_PATTERNS V2))"
    if k: "lastSpeaker s' \<noteq> ''Unknown Speaker''"
    using getSpeaker_V2_known(1) [OF k, of node'] by (simp add: isFiltered_def)
  from e fields pv1 r known dead fall b getSpeaker_V2_known(1) [of s' node'] show ?thesis
    by blast
qed

theorem processCaption_rejects_noise_witness:
  "list_all isWhiteSpace (textContent (named ''Alice'' ''   ''))
   \<and> processCaption V2 5000 (named ''Alice'' ''   '') (recordingState V2 0)
       = ((recordingState V2 0)\<lparr>lastSpeaker := ''Alice''\<rparr>, [])
   \<and> toLowerCase (getText (named ''Alice'' '' ALICE ''))
       = toLowerCase (fst (getSpeaker V2 (named ''Alice'' '' ALICE '') (recordingState V2 0)))
   \<and> snd (processCaption V2 5000 (named ''Alice'' '' ALICE '') (recordingState V2 0)) = []
   \<and> fst (getSpeaker V1 (unnamed ''Hello to all of you'') (recordingState V1 0))
       = ''Unknown Speaker''
   \<and> length (getText (unnamed ''Hello to all of you'')) < minUnknownLength V1
   \<and> processCaption V1 5000 (unnamed ''Hello to all of you'') (recordingState V1 0)
       = (recordingState V1 0, [])"
proof -
  have 1: "list_all isWhiteSpace (textContent (named ''Alice'' ''   ''))"
    unfolding named_def by code_simp
  have n: "firstName (nameCandidates (named ''Alice'' c)) = Some ''Alice''" for c
  proof -
    have "trim ''Alice'' = ''Alice''" by code_simp
    then show ?thesis by (simp add: named_def)
  qed
  have g: "getSpeaker V2 (named ''Alice'' c) (recordingState V2 0)
             = (''Alice'', (recordingState V2 0)\<lparr>lastSpeaker := ''Alice''\<rparr>)" for c
    by (simp add: getSpeaker_def n)
  have 2: "toLowerCase (getText (named ''Alice'' '' ALICE ''))
       = toLowerCase (fst (getSpeaker V2 (named ''Alice'' '' ALICE '') (recordingState V2 0)))"
    unfolding g fst_conv named_def by code_simp
  have u: "fst (getSpeaker V1 (unnamed ''Hello to all of you'') (recordingState V1 0))
       = ''Unknown Speaker''"
    by (simp add: getSpeaker_def unnamed_def)
  have 3: "length (getText (unnamed ''Hello to all of you'')) < minUnknownLength V1"
    unfolding unnamed_def by code_simp
  note a = processCaption_rejects_noise [of "named ''Alice'' ''   ''" V2 "recordingState V2 0" 5000]
  note b = processCaption_rejects_noise [of "named ''Alice'' '' ALICE ''" V2 "recordingState V2 0" 5000]
  note c = processCaption_rejects_noise [of "unnamed ''Hello to all of you''" V1 "recordingState V1 0" 5000]
  have pa: "processCaption V2 5000 (named ''Alice'' ''   '') (recordingState V2 0)
       = ((recordingState V2 0)\<lparr>lastSpeaker := ''Alice''\<rparr>, [])"
  proof -
    have "isFiltered V2 ''Alice'' (getText (named ''Alice'' ''   ''))
        ((recordingState V2 0)\<lparr>lastSpeaker := ''Alice''\<rparr>)"
      using 1 by (simp add: isFiltered_def getText_def trim_whitespace_only)
    then show ?thesis
      by (simp add: processCaption_fragment g processFragment_filtered)
  qed
  from b 2 have pb: "snd (processCaption V2 5000 (named ''Alice'' '' ALICE '') (recordingState V2 0)) = []"
    by blast
  from c u 3 have pc: "processCaption V1 5000 (unnamed ''Hello to all of you'') (recordingState V1 0)
       = (recordingState V1 0, [])"
    by (metis prod.collapse)
  from 1 2 u 3 pa pb pc show ?thesis
    by blast
qed

section \<open>Duplicate suppression\<close>

text \<open>
  Claim C8 calls a fragment that repeats the last accepted text a complete no-operation,
  also when its speaker is another one. In the current script the lookup of the speaker
  runs before the comparison and stores the name it finds: after Alice's \<open>Hi there\<close>, the
  same text in a node of Bob emits nothing and touches no segment, but Bob is now the last
  speaker, and a following node without a name, \<open>Good morning\<close>, opens a segment of Bob
  where without the repeated fragment it would have been Alice's.
\<close>

theorem duplicate_changes_speaker_counterexample:
  "accepted V2 (named ''Alice'' ''Hi there'') (recordingState V2 0)
   \<and> getText (named ''Bob'' ''Hi there'') = getText (named ''Alice'' ''Hi there'')
   \<and> fst (processCaption V2 2000 (named ''Bob'' ''Hi there'')
            (fst (processCaption V2 1000 (named ''Alice'' ''Hi there'') (recordingState V2 0))))
       \<noteq> fst (processCaption V2 1000 (named ''Alice'' ''Hi there'') (recordingState V2 0))
   \<and> map fst (activeSegments (fst (processCaption V2 3000 (unnamed ''Good morning'')
        (fst (processCaption V2 2000 (named ''Bob'' ''Hi there'')
           (fst (processCaption V2 1000 (named ''Alice'' ''Hi there'') (recordingState V2 0))))))))
       = [''Alice'', ''Bob'']
   \<and> map fst (activeSegments (fst (processCaption V2 3000 (unnamed ''Good morning'')
        (fst (processCaption V2 1000 (named ''Alice'' ''Hi there'') (recordingState V2 0))))))
       = [''Alice'']"
proof -
  let ?s0 = "recordingState V2 0"
  let ?A = "named ''Alice'' ''Hi there''" and ?B = "named ''Bob'' ''Hi there''"
    and ?U = "unnamed ''Good morning''"
  have tr: "trim ''Alice'' = ''Alice''" "trim ''Bob'' = ''Bob''"
    "trim ''Hi there'' = ''Hi there''" "trim ''Good morning'' = ''Good morning''"
    by code_simp+
  have ga: "getSpeaker V2 (named ''Alice'' c) s = (''Alice'', s\<lparr>lastSpeaker := ''Alice''\<rparr>)" for c s
    by (simp add: getSpeaker_def named_def tr)
  have gb: "getSpeaker V2 (named ''Bob'' c) s = (''Bob'', s\<lparr>lastSpeaker := ''Bob''\<rparr>)" for c s
    by (simp add: getSpeaker_def named_def tr)
  have gu: "getSpeaker V2 (unnamed c) s
      = (if lastSpeaker s \<noteq> [] then lastSpeaker s else ''Speaker'', s)" for c s
    by (simp add: getSpeaker_def unnamed_def)
  have tx: "getText (named n ''Hi there'') = ''Hi there''"
    "getText (unnamed ''Good morning'') = ''Good morning''" for n
    by (simp_all add: getText_def named_def unnamed_def tr)
  have noise: "\<not> list_ex (\<lambda>pattern. pattern ''Hi there'') (UI_PATTERNS V2)"
    "\<not> list_ex (\<lambda>pattern. pattern ''Good morning'') (UI_PATTERNS V2)"
    by code_simp+
  have low: "toLowerCase ''Hi there'' \<noteq> toLowerCase ''Alice''"
    "toLowerCase ''Good morning'' \<noteq> toLowerCase ''Alice''"
    "toLowerCase ''Good morning'' \<noteq> toLowerCase ''Bob''"
    by code_simp+
  have ex: "\<not> hasExitPhrase V2 ''Hi there''" "\<not> hasExitPhrase V2 ''Good morning''"
    by code_simp+
  have pre: "\<not> startsWith ''Good morning'' (take 20 ''Hi there'')"
    by code_simp
  have acc: "accepted V2 ?A ?s0"
    by (simp add: accepted_def ga tx acceptedFragment_def isFiltered_def noise low ex)
  obtain s1 where p1: "fst (processCaption V2 1000 ?A ?s0) = s1"
    and f1: "lastCaption s1 = ''Hi there''" "lastSpeaker s1 = ''Alice''"
      "\<exists>g. activeSegments s1 = [(''Alice'', g)] \<and> text' g = ''Hi there''"
  proof -
    let ?q = "?s0\<lparr>lastSpeaker := ''Alice''\<rparr>"
    have a: "acceptedFragment V2 ''Alice'' ''Hi there'' ?q"
      by (simp add: acceptedFragment_def isFiltered_def noise low ex)
    have m: "map_of (activeSegments ?q) ''Alice'' = None"
      by simp
    have "processCaption V2 1000 ?A ?s0 = processFragment V2 1000 ''Alice'' ''Hi there'' ?q"
      by (simp add: processCaption_fragment ga tx)
    then have "fst (processCaption V2 1000 ?A ?s0)
        = fst (processFragment V2 1000 ''Alice'' ''Hi there'' ?q)"
      by simp
    from that [OF this] show ?thesis
      by (simp add: processFragment_new [OF a m])
  qed
  from f1 obtain gA where gA: "activeSegments s1 = [(''Alice'', gA)]" "text' gA = ''Hi there''"
    by blast
  let ?s2 = "s1\<lparr>lastSpeaker := ''Bob''\<rparr>"
  have p2: "fst (processCaption V2 2000 ?B s1) = ?s2"
    by (simp add: processCaption_fragment gb tx processFragment_filtered isFiltered_def f1)
  have ne: "?s2 \<noteq> s1"
  proof
    assume "?s2 = s1"
    then have "lastSpeaker ?s2 = lastSpeaker s1"
      by (rule arg_cong)
    then show False by (simp add: f1)
  qed
  have p3: "map fst (activeSegments (fst (processCaption V2 3000 ?U ?s2))) = [''Alice'', ''Bob'']"
  proof -
    have a: "acceptedFragment V2 ''Bob'' ''Good morning'' ?s2"
      by (simp add: acceptedFragment_def isFiltered_def noise low ex f1)
    have m: "map_of (activeSegments ?s2) ''Bob'' = None"
      by (simp add: gA)
    have "processCaption V2 3000 ?U ?s2 = processFragment V2 3000 ''Bob'' ''Good morning'' ?s2"
      by (simp add: processCaption_fragment gu tx)
    then show ?thesis
      by (simp add: processFragment_new [OF a m] gA)
  qed
  have p4: "map fst (activeSegments (fst (processCaption V2 3000 ?U s1))) = [''Alice'']"
  proof -
    have a: "acceptedFragment V2 ''Alice'' ''Good morning'' s1"
      by (simp add: acceptedFragment_def isFiltered_def noise low ex f1)
    have m: "map_of (activeSegments s1) ''Alice'' = Some gA"
      by (simp add: gA)
    have c: "\<not> startsWith ''Good morning'' (take 20 (text' gA))"
      using pre by (simp add: gA)
    have "processCaption V2 3000 ?U s1 = processFragment V2 3000 ''Alice'' ''Good morning'' s1"
      by (simp add: processCaption_fragment gu tx f1)
    then show ?thesis
      by (simp add: processFragment_replace [OF a m c] gA)
  qed
  have t: "getText ?B = getText ?A"
    by (simp add: tx)
  from acc t ne p3 p4 show ?thesis
    unfolding p1 p2 by blast
qed

text \<open>
  Claim C8, as amended. Duplicate suppression looks at the last accepted text only. Once
  a fragment has been accepted, a node with the same text emits nothing and changes no
  segment state (segments, active-segment table, last caption, segment count), whoever
  its speaker is and whenever it comes. In the earlier script the state is unchanged
  altogether. In the current script the lookup of the speaker comes first, so the name
  found on the node, if any, becomes the last speaker; nothing else changes.
\<close>

theorem duplicate_text_is_noop:
  assumes "accepted ver node1 s"
    and "getText node2 = getText node1"
  shows "processCaption ver now2 node2 (fst (processCaption ver now1 node1 s))
         = ((fst (processCaption ver now1 node1 s))
              \<lparr>lastSpeaker :=
                 (case ver of
                    V1 \<Rightarrow> lastSpeaker (fst (processCaption ver now1 node1 s))
                  | V2 \<Rightarrow> (case firstName (nameCandidates node2) of
                             Some name \<Rightarrow> name
                           | None \<Rightarrow> lastSpeaker (fst (processCaption ver now1 node1 s))))\<rparr>,
            [])
    \<and> (ver = V1 \<longrightarrow>
          processCaption ver now2 node2 (fst (processCaption ver now1 node1 s))
            = (fst (processCaption ver now1 node1 s), []))"
proof -
  let ?s1 = "fst (processCaption ver now1 node1 s)"
  from assms(1) have "acceptedFragment ver (fst (getSpeaker ver node1 s)) (getText node1)
      (snd (getSpeaker ver node1 s))"
    by (simp add: accepted_fragment)
  then have "lastCaption ?s1 = getText node1"
    by (simp add: processCaption_fragment processFragment_accepted)
  then have "isFiltered ver (fst (getSpeaker ver node2 ?s1)) (getText node2)
      (snd (getSpeaker ver node2 ?s1))"
    using assms(2) by (simp add: isFiltered_def)
  then have p: "processCaption ver now2 node2 ?s1 = (snd (getSpeaker ver node2 ?s1), [])"
    by (simp add: processCaption_fragment processFragment_filtered)
  have same: "snd (getSpeaker ver node2 x) = x" if "ver = V1" for x
    using that by (simp add: getSpeaker_def)
  have v1: "ver = V1 \<longrightarrow> processCaption ver now2 node2 ?s1 = (?s1, [])"
  proof
    assume v: "ver = V1"
    from p show "processCaption ver now2 node2 ?s1 = (?s1, [])"
      by (simp only: same [OF v])
  qed
  from p have "processCaption ver now2 node2 ?s1
      = (?s1\<lparr>lastSpeaker :=
                 (case ver of
                    V1 \<Rightarrow> lastSpeaker ?s1
                  | V2 \<Rightarrow> (case firstName (nameCandidates node2) of
                             Some name \<Rightarrow> name
                           | None \<Rightarrow> lastSpeaker ?s1))\<rparr>, [])"
    by (simp add: getSpeaker_state)
  with v1 show ?thesis
    by blast
qed
lemma scenario_trims:
  "trim ''Alice'' = ''Alice''" "trim ''Bob'' = ''Bob''"
  by code_simp+

lemma scenario_carries:
  "carriesName ver (named ''Alice'' c) ''Alice''"
  "carriesName ver (named ''Bob'' c) ''Bob''"
  by (cases ver; simp add: carriesName_def named_def scenario_trims)+

lemma scenario_texts:
  "getText (named n ''Hi there'') = ''Hi there''"
  "getText (named n ''Hi there, everyone'') = ''Hi there, everyone''"
  "getText (named n ''Good morning'') = ''Good morning''"
proof -
  have "trim ''Hi there'' = ''Hi there''" "trim ''Hi there, everyone'' = ''Hi there, everyone''"
    "trim ''Good morning'' = ''Good morning''"
    by code_simp+
  then show "getText (named n ''Hi there'') = ''Hi there''"
    "getText (named n ''Hi there, everyone'') = ''Hi there, everyone''"
    "getText (named n ''Good morning'') = ''Good morning''"
    by (simp_all add: getText_def named_def)
qed

lemma scenario_not_noise_versions:
  "\<not> list_ex (\<lambda>pattern. pattern ''Hi there'') (UI_PATTERNS V1)"
  "\<not> list_ex (\<lambda>pattern. pattern ''Hi there, everyone'') (UI_PATTERNS V1)"
  "\<not> list_ex (\<lambda>pattern. pattern ''Good morning'') (UI_PATTERNS V1)"
  "\<not> list_ex (\<lambda>pattern. pattern ''Hi there'') (UI_PATTERNS V2)"
  "\<not> list_ex (\<lambda>pattern. pattern ''Hi there, everyone'') (UI_PATTERNS V2)"
  "\<not> list_ex (\<lambda>pattern. pattern ''Good morning'') (UI_PATTERNS V2)"
  by code_simp+

lemma scenario_not_noise:
  "\<not> list_ex (\<lambda>pattern. pattern ''Hi there'') (UI_PATTERNS ver)"
  "\<not> list_ex (\<lambda>pattern. pattern ''Hi there, everyone'') (UI_PATTERNS ver)"
  "\<not> list_ex (\<lambda>pattern. pattern ''Good morning'') (UI_PATTERNS ver)"
  by (cases ver; simp only: scenario_not_noise_versions not_False_eq_True)+

lemma scenario_no_exit_versions:
  "\<not> hasExitPhrase V1 ''Hi there''"
  "\<not> hasExitPhrase V1 ''Hi there, everyone''"
  "\<not> hasExitPhrase V1 ''Good morning''"
  "\<not> hasExitPhrase V2 ''Hi there''"
  "\<not> hasExitPhrase V2 ''Hi there, everyone''"
  "\<not> hasExitPhrase V2 ''Good morning''"
  by code_simp+

lemma scenario_no_exit:
  "\<not> hasExitPhrase ver ''Hi there''"
  "\<not> hasExitPhrase ver ''Hi there, everyone''"
  "\<not> hasExitPhrase ver ''Good morning''"
  by (cases ver; simp only: scenario_no_exit_versions not_False_eq_True)+

lemma scenario_names:
  "toLowerCase ''Hi there'' \<noteq> toLowerCase ''Alice''"
  "toLowerCase ''Hi there, everyone'' \<noteq> toLowerCase ''Alice''"
  "toLowerCase ''Good morning'' \<noteq> toLowerCase ''Bob''"
  by code_simp+

lemma scenario_prefix: "startsWith ''Hi there, everyone'' ''Hi there''"
  by code_simp

lemma scenario_first_fragment:
  "lastCaption s = [] \<Longrightarrow> acceptedFragment ver ''Alice'' ''Hi there'' s"
  by (simp add: acceptedFragment_def isFiltered_def scenario_not_noise scenario_no_exit
      scenario_names)

lemma scenario_first_accepted: "accepted ver (named ''Alice'' ''Hi there'') (recordingState ver t0)"
  by (simp add: accepted_fragment carriesName_getSpeaker [OF scenario_carries(1)] scenario_texts
      scenario_first_fragment)

theorem duplicate_text_is_noop_witness:
  "accepted V2 (named ''Alice'' ''Hi there'') (recordingState V2 0)
   \<and> getText (named ''Bob'' ''Hi there'') = getText (named ''Alice'' ''Hi there'')
   \<and> processCaption V2 2000 (named ''Bob'' ''Hi there'')
        (fst (processCaption V2 1000 (named ''Alice'' ''Hi there'') (recordingState V2 0)))
      = ((fst (processCaption V2 1000 (named ''Alice'' ''Hi there'') (recordingState V2 0)))
           \<lparr>lastSpeaker := ''Bob''\<rparr>, [])"
proof -
  have t: "getText (named ''Bob'' ''Hi there'') = getText (named ''Alice'' ''Hi there'')"
    by (simp add: scenario_texts)
  have n: "firstName (nameCandidates (named ''Bob'' ''Hi there'')) = Some ''Bob''"
    using scenario_carries(2) [of V2 "''Hi there''"] by (simp add: carriesName_def)
  show ?thesis
    using duplicate_text_is_noop [OF scenario_first_accepted [of V2 0] t,
        where ?now2.0 = 2000 and ?now1.0 = 1000]
      scenario_first_accepted [of V2 0] t
    by (simp add: n)
qed

section \<open>The scenario of Alice and Bob\<close>

text \<open>
  Claim C7. Let \<open>processCaption\<close> be called on three nodes, each in a notification of its
  own and at any clock readings, and let it read of them the speakers and texts
  (Alice, "Hi there"), (Alice, "Hi there, everyone") and (Bob, "Good morning"). When the
  session then ends, the agent delivers exactly one final segment list, which is Alice
  with "Hi there, everyone" and then Bob with "Good morning". This holds for both content
  scripts and from any start time.
\<close>

theorem scenario_alice_bob:
  assumes "observed ver [(t1, n1), (t2, n2), (t3, n3)] (recordingState ver t0)
             = [(''Alice'', ''Hi there''), (''Alice'', ''Hi there, everyone''),
                (''Bob'', ''Good morning'')]"
  shows "map (map (\<lambda>g. (speaker g, text' g)))
     (completedPayloads (snd (runAgent ver
        [(t1, Mutations [n1]), (t2, Mutations [n2]), (t3, Mutations [n3]),
         (t4, StopCommand), (t5, LeaveResumes)] (recordingState ver t0))))
   = [[(''Alice'', ''Hi there, everyone''), (''Bob'', ''Good morning'')]]"
proof -
  let ?s0 = "recordingState ver t0"
  from assms have o1: "fst (getSpeaker ver n1 ?s0) = ''Alice''" "getText n1 = ''Hi there''"
    and o2: "fst (getSpeaker ver n2 (fst (processCaption ver t1 n1 ?s0))) = ''Alice''"
      "getText n2 = ''Hi there, everyone''"
    and o3: "fst (getSpeaker ver n3 (fst (processCaption ver t2 n2
               (fst (processCaption ver t1 n1 ?s0))))) = ''Bob''"
      "getText n3 = ''Good morning''"
    by simp_all
  obtain s1 m1 where p1: "processCaption ver t1 n1 ?s0 = (s1, m1)"
    and f1: "completedPayloads m1 = []" "lastCaption s1 = ''Hi there''" "segments s1 = []"
      "isActive s1" "captionObserver s1" "leaving s1 = []" "segmentCount s1 = 1"
      "\<exists>g. activeSegments s1 = [(''Alice'', g)] \<and> speaker g = ''Alice'' \<and> text' g = ''Hi there''
           \<and> index g = 1"
  proof -
    let ?q = "snd (getSpeaker ver n1 ?s0)"
    have a: "acceptedFragment ver ''Alice'' ''Hi there'' ?q"
      by (simp add: scenario_first_fragment)
    have m: "map_of (activeSegments ?q) ''Alice'' = None" by simp
    have "processCaption ver t1 n1 ?s0 = processFragment ver t1 ''Alice'' ''Hi there'' ?q"
      by (simp add: processCaption_fragment o1)
    from that [OF trans [OF this processFragment_new [OF a m]]] show ?thesis
      by simp
  qed
  from f1 obtain g1 where g1: "activeSegments s1 = [(''Alice'', g1)]" "speaker g1 = ''Alice''"
    "text' g1 = ''Hi there''" "index g1 = 1" by blast
  from o2 p1 have o2': "fst (getSpeaker ver n2 s1) = ''Alice''"
    by simp
  obtain s2 m2 where p2: "processCaption ver t2 n2 s1 = (s2, m2)"
    and f2: "completedPayloads m2 = []" "lastCaption s2 = ''Hi there, everyone''"
      "segments s2 = []" "isActive s2" "captionObserver s2" "leaving s2 = []"
      "segmentCount s2 = 2"
      "\<exists>g. activeSegments s2 = [(''Alice'', g)] \<and> speaker g = ''Alice''
           \<and> text' g = ''Hi there, everyone'' \<and> index g = 1"
  proof -
    let ?q = "snd (getSpeaker ver n2 s1)"
    have a2: "acceptedFragment ver ''Alice'' ''Hi there, everyone'' ?q"
      by (simp add: f1 acceptedFragment_def isFiltered_def scenario_not_noise
          scenario_no_exit scenario_names)
    have c: "startsWith ''Hi there, everyone'' (take 20 (text' g1))"
      by (simp add: g1 scenario_prefix)
    have m: "map_of (activeSegments ?q) ''Alice'' = Some g1" by (simp add: g1)
    have "processCaption ver t2 n2 s1 = processFragment ver t2 ''Alice'' ''Hi there, everyone'' ?q"
      by (simp add: processCaption_fragment o2' o2(2))
    from that [OF trans [OF this processFragment_continue [OF a2 m c]]] show ?thesis
      by (simp add: f1 g1)
  qed
  from f2 obtain g2 where g2: "activeSegments s2 = [(''Alice'', g2)]" "speaker g2 = ''Alice''"
    "text' g2 = ''Hi there, everyone''" "index g2 = 1" by blast
  from o3 p1 p2 have o3': "fst (getSpeaker ver n3 s2) = ''Bob''"
    by simp
  obtain s3 m3 where p3: "processCaption ver t3 n3 s2 = (s3, m3)"
    and f3: "completedPayloads m3 = []" "segments s3 = []" "isActive s3" "leaving s3 = []"
      "\<exists>g. activeSegments s3 = [(''Alice'', g2), (''Bob'', g)] \<and> speaker g = ''Bob''
           \<and> text' g = ''Good morning'' \<and> index g = 3"
  proof -
    let ?q = "snd (getSpeaker ver n3 s2)"
    have a3: "acceptedFragment ver ''Bob'' ''Good morning'' ?q"
      by (simp add: f2 acceptedFragment_def isFiltered_def scenario_not_noise
          scenario_no_exit scenario_names)
    have m: "map_of (activeSegments ?q) ''Bob'' = None" by (simp add: g2)
    have "processCaption ver t3 n3 s2 = processFragment ver t3 ''Bob'' ''Good morning'' ?q"
      by (simp add: processCaption_fragment o3' o3(2))
    from that [OF trans [OF this processFragment_new [OF a3 m]]] show ?thesis
      by (simp add: f2 g2)
  qed
  from f3 obtain g3 where g3: "activeSegments s3 = [(''Alice'', g2), (''Bob'', g3)]"
    "speaker g3 = ''Bob''" "text' g3 = ''Good morning''" "index g3 = 3" by blast
  have "completedPayloads (snd (runAgent ver
        [(t1, Mutations [n1]), (t2, Mutations [n2]), (t3, Mutations [n3]),
         (t4, StopCommand), (t5, LeaveResumes)] ?s0)) = [[g2, g3]]"
    by (simp add: agentStep_def p1 p2 p3 f1 f2 f3 g2 g3 completedPayloads_append
        leaveMeeting_enter_def leaveMeeting_resume_def collectFinalSegments_def
        currentObject_def)
  then show ?thesis
    by (simp add: g2 g3)
qed

theorem scenario_alice_bob_witness:
  "observed V2 [(1000, named ''Alice'' ''Hi there''),
                (2000, named ''Alice'' ''Hi there, everyone''),
                (3000, named ''Bob'' ''Good morning'')] (recordingState V2 0)
     = [(''Alice'', ''Hi there''), (''Alice'', ''Hi there, everyone''),
        (''Bob'', ''Good morning'')]
   \<and> map (map (\<lambda>g. (speaker g, text' g)))
       (completedPayloads (snd (runAgent V2
          [(1000, Mutations [named ''Alice'' ''Hi there'']),
           (2000, Mutations [named ''Alice'' ''Hi there, everyone'']),
           (3000, Mutations [named ''Bob'' ''Good morning'']),
           (4000, StopCommand), (4500, LeaveResumes)] (recordingState V2 0))))
      = [[(''Alice'', ''Hi there, everyone''), (''Bob'', ''Good morning'')]]"
proof -
  have o: "observed V2 [(1000, named ''Alice'' ''Hi there''),
                (2000, named ''Alice'' ''Hi there, everyone''),
                (3000, named ''Bob'' ''Good morning'')] (recordingState V2 0)
     = [(''Alice'', ''Hi there''), (''Alice'', ''Hi there, everyone''),
        (''Bob'', ''Good morning'')]"
    by (simp add: carriesName_getSpeaker [OF scenario_carries(1)]
        carriesName_getSpeaker [OF scenario_carries(2)] scenario_texts)
  from scenario_alice_bob [OF o, of 4000 4500] o show ?thesis
    by simp
qed

section \<open>Leaving\<close>

lemma isFiltered_leaveMeeting_enter [simp]:
  "isFiltered ver spk txt (fst (leaveMeeting_enter r s)) = isFiltered ver spk txt s"
  by (simp add: isFiltered_def leaveMeeting_enter_def)

lemma leaving_leaveMeeting_enter [simp]:
  "length (leaving (fst (leaveMeeting_enter r s))) = Suc (length (leaving s))"
  "completedPayloads (snd (leaveMeeting_enter r s)) = []"
  "lastSpeaker (fst (leaveMeeting_enter r s)) = lastSpeaker s"
  by (simp_all add: leaveMeeting_enter_def)

lemma processCaption_exit:
  assumes "\<not> isFiltered ver (fst (getSpeaker ver node s)) (getText node) s"
    and "hasExitPhrase ver (getText node)"
  shows "processCaption ver now node s
           = leaveMeeting_enter ''exit_phrase'' (snd (getSpeaker ver node s))"
  using assms by (simp add: processCaption_fragment processFragment_exit)

lemma exit_phrase_batch:
  assumes "\<not> isFiltered ver (fst (getSpeaker ver node s)) (getText node) s"
    and "hasExitPhrase ver (getText node)"
  shows "length (leaving (fst (processNodes ver now (replicate n node) s)))
           = length (leaving s) + n
    \<and> completedPayloads (snd (processNodes ver now (replicate n node) s)) = []"
  using assms(1)
proof (induction n arbitrary: s)
  case 0
  then show ?case by simp
next
  case (Suc n)
  let ?s1 = "fst (leaveMeeting_enter ''exit_phrase'' (snd (getSpeaker ver node s)))"
  have "lastSpeaker ?s1 = lastSpeaker (snd (getSpeaker ver node s))"
    by simp
  then have "fst (getSpeaker ver node ?s1) = fst (getSpeaker ver node (snd (getSpeaker ver node s)))"
    by (rule getSpeaker_same_lastSpeaker)
  then have "fst (getSpeaker ver node ?s1) = fst (getSpeaker ver node s)"
    by (simp add: getSpeaker_twice)
  with Suc.prems have "\<not> isFiltered ver (fst (getSpeaker ver node ?s1)) (getText node) ?s1"
    by simp
  from Suc.IH [OF this] show ?case
    by (simp add: processCaption_exit [OF Suc.prems assms(2)] split_def
        completedPayloads_append)
qed

lemma resume_all:
  assumes "length ts \<le> length (leaving s)"
  shows "length (completedPayloads (snd (runAgent ver (map (\<lambda>t. (t, LeaveResumes)) ts) s)))
           = length ts"
  using assms
proof (induction ts arbitrary: s)
  case Nil
  then show ?case by simp
next
  case (Cons t ts)
  then obtain p ps where l: "leaving s = p # ps"
    by (cases "leaving s") auto
  let ?s1 = "s\<lparr>isActive := False, isInMeeting := False, leaving := ps\<rparr>"
  from Cons.prems l have "length ts \<le> length (leaving ?s1)"
    by simp
  from Cons.IH [OF this] show ?case
    by (simp add: agentStep_def leaveMeeting_resume_def l split_def completedPayloads_append)
qed

text \<open>
  Claim C2 says the leave sequence runs at most once per session. \<open>leaveMeeting\<close> has no
  guard, and the exit phrase does not become the last caption, so the fragment that
  carries it is not suppressed when it is seen again: two mutation records of one batch
  with the same fragment start two leave sequences, and two \<open>completed\<close> messages go out.
  The check for the end of the meeting, which is still running, then starts a third.
\<close>

theorem exit_phrase_seen_twice_leaves_twice:
  "completedPayloads (snd (runAgent V2
      [(1000, Mutations [named ''Alice'' ''bot, please leave'',
                         named ''Alice'' ''bot, please leave'']),
       (1200, LeaveResumes), (1200, LeaveResumes)]
      (recordingState V2 0))) = [[], []]
   \<and> length (completedPayloads (snd (runAgent V2
      [(1000, Mutations [named ''Alice'' ''bot, please leave'',
                         named ''Alice'' ''bot, please leave'']),
       (1200, LeaveResumes), (1200, LeaveResumes), (3000, EndCheck True), (3200, LeaveResumes)]
      (recordingState V2 0)))) = 3"
proof -
  let ?node = "named ''Alice'' ''bot, please leave''"
  let ?sA = "(recordingState V2 0)\<lparr>lastSpeaker := ''Alice''\<rparr>"
  have t: "getText ?node = ''bot, please leave''"
    unfolding named_def by code_simp
  have n: "\<not> list_ex (\<lambda>pattern. pattern ''bot, please leave'') (UI_PATTERNS V2)"
    by code_simp
  have l: "toLowerCase ''bot, please leave'' \<noteq> toLowerCase ''Alice''"
    by code_simp
  have x: "hasExitPhrase V2 ''bot, please leave''"
    by code_simp
  have g: "getSpeaker V2 ?node s = (''Alice'', s\<lparr>lastSpeaker := ''Alice''\<rparr>)" for s
    using carriesName_getSpeaker [OF scenario_carries(1), of V2 "''bot, please leave''" s]
    by simp
  have nf: "\<not> isFiltered V2 (fst (getSpeaker V2 ?node s)) (getText ?node) s"
    if "lastCaption s = []" for s
    using that by (simp add: isFiltered_def t n l g)
  have p: "processCaption V2 now ?node s
      = leaveMeeting_enter ''exit_phrase'' (s\<lparr>lastSpeaker := ''Alice''\<rparr>)"
    if "lastCaption s = []" for s now
    using processCaption_exit [OF nf [OF that], of now] by (simp add: t x g)
  have 1: "agentStep V2 1000 (Mutations [?node, ?node]) (recordingState V2 0) =
      (?sA\<lparr>captionObserver := False, flushTimer := False,
          leaving := [\<lparr>reason = ''exit_phrase'', finalSegments = []\<rparr>,
                      \<lparr>reason = ''exit_phrase'', finalSegments = []\<rparr>]\<rparr>,
       [MsgStatus ''leaving'' (Some ''exit_phrase''), MsgStatus ''leaving'' (Some ''exit_phrase'')])"
    by (simp add: agentStep_def p leaveMeeting_enter_def collectFinalSegments_def)
  have 2: "completedPayloads (snd (runAgent V2
        ((1000, Mutations [?node, ?node])
         # (1200, LeaveResumes) # (1200, LeaveResumes) # evs) (recordingState V2 0)))
      = [] # [] # completedPayloads (snd (runAgent V2 evs
          (?sA\<lparr>captionObserver := False, flushTimer := False,
             isActive := False, isInMeeting := False, leaving := []\<rparr>)))"
    for evs
    unfolding runAgent.simps 1 prod.case
    by (simp add: agentStep_def leaveMeeting_resume_def split_def completedPayloads_append)
  have 3: "completedPayloads (snd (runAgent V2 [(3000, EndCheck True), (3200, LeaveResumes)]
      (?sA\<lparr>captionObserver := False, flushTimer := False,
          isActive := False, isInMeeting := False, leaving := []\<rparr>))) = [[]]"
    by (simp add: agentStep_def leaveMeeting_enter_def leaveMeeting_resume_def
        collectFinalSegments_def recordingState_def initialBotState_def)
  show ?thesis
    unfolding 2 3 by simp
qed

text \<open>
  Claim C2, as amended. Every call of \<open>leaveMeeting\<close> runs the leave sequence, whatever the
  state: it stops the caption observer, cancels the flush timer, collects the final
  segments and is left waiting, and each waiting call sends exactly one \<open>completed\<close>
  message when it is resumed; the agent has no guard across calls. So a node that passes
  the filters and carries an exit phrase, processed \<open>n\<close> times in one batch, gives \<open>n\<close>
  waiting calls and \<open>n\<close> completions. What bounds the number of leave sequences is only
  the condition under which each trigger fires: the stop command is ignored once the bot
  is inactive, and the end-of-meeting check and the maximum-duration timeout fire once.
\<close>

theorem leave_sequence_per_trigger:
  assumes "\<not> isFiltered ver (fst (getSpeaker ver node s)) (getText node) s"
    and "hasExitPhrase ver (getText node)"
    and "captionObserver s" and "leaving s = []" and "length ts = n"
  shows "length (completedPayloads (snd (runAgent ver
            ((now, Mutations (replicate n node)) # map (\<lambda>t. (t, LeaveResumes)) ts) s)))
          = n
    \<and> length (leaving (fst (processNodes ver now (replicate n node) s))) = n
    \<and> leaving (fst (leaveMeeting_enter r s'))
        = leaving s' @ [\<lparr>reason = r, finalSegments = collectFinalSegments s'\<rparr>]
    \<and> \<not> captionObserver (fst (leaveMeeting_enter r s'))
    \<and> \<not> flushTimer (fst (leaveMeeting_enter r s'))
    \<and> completedPayloads (snd (leaveMeeting_enter r s')) = []
    \<and> (leaving s' \<noteq> [] \<longrightarrow>
          length (completedPayloads (snd (leaveMeeting_resume t s'))) = 1
          \<and> leaving (fst (leaveMeeting_resume t s')) = tl (leaving s'))
    \<and> agentStep ver t StopCommand (s'\<lparr>isActive := False\<rparr>) = (s'\<lparr>isActive := False\<rparr>, [])
    \<and> agentStep ver t (EndCheck e) (s'\<lparr>checkEnd := False\<rparr>) = (s'\<lparr>checkEnd := False\<rparr>, [])
    \<and> agentStep ver t MaxDuration (s'\<lparr>maxDurationTimer := False\<rparr>)
        = (s'\<lparr>maxDurationTimer := False\<rparr>, [])
    \<and> \<not> checkEnd (fst (agentStep ver t (EndCheck True) s'))
    \<and> \<not> maxDurationTimer (fst (agentStep ver t MaxDuration s'))
    \<and> \<not> isActive (fst (leaveMeeting_resume t (fst (leaveMeeting_enter r s'))))"
proof -
  let ?s1 = "fst (processNodes ver now (replicate n node) s)"
  from exit_phrase_batch [OF assms(1,2), of now n] assms(4,5)
  have b: "length ts \<le> length (leaving ?s1)"
    "completedPayloads (snd (processNodes ver now (replicate n node) s)) = []"
    by simp_all
  from exit_phrase_batch [OF assms(1,2), of now n] assms(4)
  have "length (leaving ?s1) = n"
    by simp
  moreover from resume_all [OF b(1), of ver] assms(3,5) b(2)
  have "length (completedPayloads (snd (runAgent ver
            ((now, Mutations (replicate n node)) # map (\<lambda>t. (t, LeaveResumes)) ts) s)))
          = n"
    by (simp add: agentStep_def split_def completedPayloads_append)
  moreover have "leaving s' \<noteq> [] \<longrightarrow>
          length (completedPayloads (snd (leaveMeeting_resume t s'))) = 1
          \<and> leaving (fst (leaveMeeting_resume t s')) = tl (leaving s')"
    by (cases "leaving s'") (simp_all add: leaveMeeting_resume_def)
  moreover have "\<not> isActive (fst (leaveMeeting_resume t (fst (leaveMeeting_enter r s'))))"
    by (cases "leaving s'") (simp_all add: leaveMeeting_resume_def leaveMeeting_enter_def)
  ultimately show ?thesis
    by (simp add: agentStep_def leaveMeeting_enter_def)
qed

theorem leave_sequence_per_trigger_witness:
  "\<not> isFiltered V2 (fst (getSpeaker V2 (named ''Alice'' ''notu keluar sekarang'')
          (recordingState V2 0)))
        (getText (named ''Alice'' ''notu keluar sekarang'')) (recordingState V2 0)
   \<and> hasExitPhrase V2 (getText (named ''Alice'' ''notu keluar sekarang''))
   \<and> captionObserver (recordingState V2 0) \<and> leaving (recordingState V2 0) = []
   \<and> length (completedPayloads (snd (runAgent V2
        ((1000, Mutations (replicate 2 (named ''Alice'' ''notu keluar sekarang'')))
         # map (\<lambda>t. (t, LeaveResumes)) [1200, 1300]) (recordingState V2 0)))) = 2"
proof -
  let ?node = "named ''Alice'' ''notu keluar sekarang''"
  have t: "getText ?node = ''notu keluar sekarang''"
    unfolding named_def by code_simp
  have n: "\<not> list_ex (\<lambda>pattern. pattern ''notu keluar sekarang'') (UI_PATTERNS V2)"
    by code_simp
  have l: "toLowerCase ''notu keluar sekarang'' \<noteq> toLowerCase ''Alice''"
    by code_simp
  have x: "hasExitPhrase V2 (getText ?node)"
    unfolding t by code_simp
  have g: "fst (getSpeaker V2 ?node s) = ''Alice''" for s
    using carriesName_getSpeaker [OF scenario_carries(1), of V2 "''notu keluar sekarang''" s]
    by simp
  have nf: "\<not> isFiltered V2 (fst (getSpeaker V2 ?node (recordingState V2 0))) (getText ?node)
      (recordingState V2 0)"
    by (simp add: isFiltered_def t n l g)
  have o: "captionObserver (recordingState V2 0)" and e: "leaving (recordingState V2 0) = []"
    by simp_all
  have k: "length [1200, 1300 :: real] = 2"
    by simp
  from leave_sequence_per_trigger [OF nf x o e k, where now = 1000]
  show ?thesis
    using nf x o e by simp
qed

section \<open>The segment manager: flushing\<close>

lemma map_of_mem: "map_of al k = Some v \<Longrightarrow> (k, v) \<in> set al"
  by (rule map_of_SomeD)

lemma smInvariant_valid:
  "smInvariant m \<Longrightarrow> r \<in> set (getSegmentsForFlush m) \<Longrightarrow> r < length (objects m)"
  by (auto simp: smInvariant_def getSegmentsForFlush_def list_all_iff dest: in_set_dropD)

lemma smInvariant_active_valid:
  "smInvariant m \<Longrightarrow> map_of (sm_activeSegments m) spk = Some a \<Longrightarrow> a < length (objects m)"
  by (force simp: smInvariant_def list_all_iff dest: map_of_SomeD)

lemma smInvariant_addCaption: "smInvariant m \<Longrightarrow> smInvariant (addCaption now spk txt m)"
  by (auto simp: smInvariant_def addCaption_def Let_def update_absent list_all_iff
      split: option.splits dest: map_of_SomeD simp: map_of_eq_None_iff less_Suc_eq)

lemma smInvariant_finalizeSegment: "smInvariant m \<Longrightarrow> smInvariant (fst (finalizeSegment spk m))"
  by (auto simp: smInvariant_def finalizeSegment_def list_all_iff AList.delete_eq
      distinct_map_filter less_Suc_eq
      split: option.splits)


lemma smInvariant_markFlushed:
  assumes "smInvariant m"
  shows "smInvariant (markFlushed m)"
proof -
  from assms have valid: "\<forall>r \<in> set (sm_segments m). r < length (objects m)"
    and d: "distinct (sm_segments m)"
    by (auto simp: smInvariant_def list_all_iff)
  from valid have "set (sm_segments m) \<inter> {length (objects m) ..< length (objects m) + k} = {}" for k
    by auto
  with valid d show ?thesis
    by (auto simp: smInvariant_def markFlushed_def Let_def list_all_iff)
qed

lemma smInvariant_smStep: "smInvariant m \<Longrightarrow> smInvariant (smStep c m)"
  by (cases c) (simp_all add: smInvariant_addCaption smInvariant_finalizeSegment
      smInvariant_markFlushed)

lemma smInvariant_smRun: "smInvariant m \<Longrightarrow> smInvariant (smRun cs m)"
  by (induction cs arbitrary: m) (simp_all add: smInvariant_smStep)

lemma smInvariant_new: "smInvariant (newSegmentManager now)"
  by (simp add: smInvariant_def newSegmentManager_def)

lemma represents_addCaption:
  assumes inv: "smInvariant m" and rep: "represents m r r'"
  shows "represents (addCaption now spk txt m) r r'"
proof (cases "map_of (sm_activeSegments m) spk")
  case None
  from rep inv have v: "r' < length (objects m)" "r < length (objects m)"
    by (auto simp: represents_def smInvariant_valid)
  with rep None show ?thesis
    by (auto simp: represents_def addCaption_def Let_def update_absent getSegmentsForFlush_def
        activeRefs_def nth_append)
next
  case (Some a)
  then have a: "a \<in> activeRefs m"
    by (force simp: activeRefs_def dest: map_of_SomeD)
  from rep inv have v: "r' < length (objects m)" "r < length (objects m)"
    by (auto simp: represents_def smInvariant_valid)
  from rep a have "r = r' \<or> (r \<noteq> a \<and> r' \<noteq> a)"
    by (auto simp: represents_def)
  with rep Some v show ?thesis
    by (auto simp: represents_def addCaption_def Let_def getSegmentsForFlush_def
        activeRefs_def nth_list_update)
qed

lemma represents_finalizeSegment:
  assumes inv: "smInvariant m" and rep: "represents m r r'"
  shows "\<exists>r''. represents (fst (finalizeSegment spk m)) r r''"
proof (cases "map_of (sm_activeSegments m) spk")
  case None
  with rep show ?thesis
    by (auto simp: finalizeSegment_def)
next
  case (Some a)
  let ?m' = "fst (finalizeSegment spk m)"
  from Some have mem: "(spk, a) \<in> set (sm_activeSegments m)"
    by (rule map_of_SomeD)
  from rep inv have v: "r' < length (objects m)" "r < length (objects m)"
    by (auto simp: represents_def smInvariant_valid)
  from inv Some have av: "a < length (objects m)"
    by (rule smInvariant_active_valid)
  from inv have fc: "flushedCount m \<le> length (sm_segments m)"
    and dk: "distinct (map fst (sm_activeSegments m))"
    and dv: "distinct (map snd (sm_activeSegments m))"
    and valid: "\<forall>x \<in> activeRefs m. x < length (objects m)"
    by (auto simp: smInvariant_def list_all_iff activeRefs_def)
  have m': "objects ?m' = objects m @ [objects m ! a]"
    "sm_segments ?m' = sm_segments m @ [length (objects m)]"
    "sm_activeSegments ?m' = AList.delete spk (sm_activeSegments m)"
    "flushedCount ?m' = flushedCount m"
    using Some by (simp_all add: finalizeSegment_def)
  have sub: "activeRefs ?m' \<subseteq> activeRefs m"
    by (auto simp: activeRefs_def m' AList.delete_eq)
  have a_out: "a \<notin> activeRefs ?m'"
  proof
    assume "a \<in> activeRefs ?m'"
    then obtain k where k: "(k, a) \<in> set (sm_activeSegments m)" "k \<noteq> spk"
      by (auto simp: activeRefs_def m' AList.delete_eq)
    with mem dv show False
      by (metis distinct_map eq_key_imp_eq_value fst_conv inj_onD snd_conv)
  qed
  have n_out: "length (objects m) \<notin> activeRefs ?m'"
    using sub valid by auto
  show ?thesis
  proof (cases "r' = a")
    case True
    with rep mem have "r = a"
      by (force simp: represents_def activeRefs_def)
    then have "represents ?m' r (length (objects m))"
      using av a_out n_out fc
      by (simp add: represents_def m' getSegmentsForFlush_def nth_append)
    then show ?thesis ..
  next
    case False
    have "r' \<in> set (getSegmentsForFlush ?m')"
    proof -
      from rep have "r' \<in> set (drop (flushedCount m) (sm_segments m)) \<or> r' \<in> activeRefs m"
        by (auto simp: represents_def getSegmentsForFlush_def activeRefs_def)
      then show ?thesis
      proof
        assume "r' \<in> set (drop (flushedCount m) (sm_segments m))"
        then show ?thesis using fc by (simp add: getSegmentsForFlush_def m')
      next
        assume "r' \<in> activeRefs m"
        then obtain k where k: "(k, r') \<in> set (sm_activeSegments m)"
          by (auto simp: activeRefs_def)
        have "k \<noteq> spk"
        proof
          assume "k = spk"
          from k dk have "map_of (sm_activeSegments m) k = Some r'" by simp
          with \<open>k = spk\<close> Some have "r' = a" by simp
          with False show False by simp
        qed
        with k have "r' \<in> activeRefs ?m'"
          by (force simp: activeRefs_def m' AList.delete_eq)
        then show ?thesis by (simp add: getSegmentsForFlush_def activeRefs_def)
      qed
    qed
    moreover from rep sub have "r = r' \<or> (r \<notin> activeRefs ?m' \<and> r' \<notin> activeRefs ?m')"
      by (auto simp: represents_def)
    ultimately have "represents ?m' r r'"
      using rep v by (simp add: represents_def m' nth_append)
    then show ?thesis ..
  qed
qed

lemma represents_smStep:
  assumes "smInvariant m" and "represents m r r'" and "c \<noteq> MarkFlushed"
  shows "\<exists>r''. represents (smStep c m) r r''"
  using assms
  by (cases c) (auto intro: represents_addCaption represents_finalizeSegment)

lemma represents_smRun:
  assumes "smInvariant m" and "represents m r r'" and "MarkFlushed \<notin> set cs"
  shows "\<exists>r''. represents (smRun cs m) r r''"
  using assms
proof (induction cs arbitrary: m r')
  case Nil
  then show ?case by auto
next
  case (Cons c cs)
  from Cons.prems obtain r1 where "represents (smStep c m) r r1"
    using represents_smStep [of m r r' c] by auto
  moreover from Cons.prems have "smInvariant (smStep c m)"
    by (simp add: smInvariant_smStep)
  ultimately show ?case
    using Cons.IH [of "smStep c m" r1] Cons.prems(3) by simp
qed


lemma length_getSegmentsForFlush_smStep:
  assumes "smInvariant m" and "c \<noteq> MarkFlushed"
  shows "length (getSegmentsForFlush m) \<le> length (getSegmentsForFlush (smStep c m))"
proof (cases c)
  case (AddCaption now spk tx)
  then show ?thesis
    by (auto simp: addCaption_def Let_def getSegmentsForFlush_def update_absent split: option.splits)
next
  case (FinalizeSegment spk)
  show ?thesis
  proof (cases "map_of (sm_activeSegments m) spk")
    case None
    with FinalizeSegment show ?thesis by (simp add: finalizeSegment_def)
  next
    case (Some a)
    from assms(1) have "distinct (map fst (sm_activeSegments m))"
      and "flushedCount m \<le> length (sm_segments m)"
      by (auto simp: smInvariant_def)
    with Some FinalizeSegment length_delete_present [of "sm_activeSegments m" spk a]
    show ?thesis
      by (simp add: finalizeSegment_def getSegmentsForFlush_def)
  qed
next
  case GetSegmentsForFlush
  then show ?thesis by simp
next
  case MarkFlushed
  with assms(2) show ?thesis by simp
qed

lemma length_getSegmentsForFlush_smRun:
  assumes "smInvariant m" and "MarkFlushed \<notin> set cs"
  shows "length (getSegmentsForFlush m) \<le> length (getSegmentsForFlush (smRun cs m))"
  using assms
proof (induction cs arbitrary: m)
  case Nil
  then show ?case by simp
next
  case (Cons c cs)
  from Cons.prems have "length (getSegmentsForFlush m) \<le> length (getSegmentsForFlush (smStep c m))"
    by (intro length_getSegmentsForFlush_smStep) auto
  moreover from Cons have "length (getSegmentsForFlush (smStep c m))
      \<le> length (getSegmentsForFlush (smRun cs (smStep c m)))"
    by (simp add: smInvariant_smStep)
  ultimately show ?case by simp
qed

lemma nth_update_in_place:
  assumes "r < length xs"
  shows "speaker (xs[a := (xs ! a)\<lparr>text' := tx, end' := e\<rparr>] ! r) = speaker (xs ! r)
         \<and> start (xs[a := (xs ! a)\<lparr>text' := tx, end' := e\<rparr>] ! r) = start (xs ! r)"
  using assms by (cases "a = r") simp_all

lemma object_identity_smStep:
  assumes "r < length (objects m)"
  shows "r < length (objects (smStep c m))
         \<and> speaker (objects (smStep c m) ! r) = speaker (objects m ! r)
         \<and> start (objects (smStep c m) ! r) = start (objects m ! r)"
  using assms
  by (cases c)
     (auto simp: addCaption_def finalizeSegment_def markFlushed_def Let_def nth_append
        nth_update_in_place split: option.splits)

lemma object_identity_smRun:
  assumes "r < length (objects m)"
  shows "r < length (objects (smRun cs m))
         \<and> speaker (objects (smRun cs m) ! r) = speaker (objects m ! r)
         \<and> start (objects (smRun cs m) ! r) = start (objects m ! r)"
  using assms
proof (induction cs arbitrary: m)
  case Nil
  then show ?case by simp
next
  case (Cons c cs)
  from object_identity_smStep [OF Cons.prems, of c] Cons.IH [of "smStep c m"]
  show ?case by simp
qed

lemma fresh_smStep:
  assumes "n \<le> length (objects m)" and "\<forall>r \<in> set (getSegmentsForFlush m). n \<le> r"
    and "smInvariant m" and "c \<noteq> MarkFlushed"
  shows "n \<le> length (objects (smStep c m)) \<and> (\<forall>r \<in> set (getSegmentsForFlush (smStep c m)). n \<le> r)"
proof (cases c)
  case (AddCaption now spk tx)
  with assms(1,2) show ?thesis
    by (auto simp: addCaption_def Let_def getSegmentsForFlush_def update_absent split: option.splits)
next
  case (FinalizeSegment spk)
  from assms(3) have "flushedCount m \<le> length (sm_segments m)"
    by (simp add: smInvariant_def)
  with FinalizeSegment assms(1,2) show ?thesis
    by (auto simp: finalizeSegment_def getSegmentsForFlush_def AList.delete_eq split: option.splits)
next
  case GetSegmentsForFlush
  with assms(1,2) show ?thesis by simp
next
  case MarkFlushed
  with assms(4) show ?thesis by simp
qed

lemma fresh_smRun:
  assumes "n \<le> length (objects m)" and "\<forall>r \<in> set (getSegmentsForFlush m). n \<le> r"
    and "smInvariant m" and "MarkFlushed \<notin> set cs"
  shows "\<forall>r \<in> set (getSegmentsForFlush (smRun cs m)). n \<le> r"
  using assms
proof (induction cs arbitrary: m)
  case Nil
  then show ?case by simp
next
  case (Cons c cs)
  from Cons.prems have "n \<le> length (objects (smStep c m))
      \<and> (\<forall>r \<in> set (getSegmentsForFlush (smStep c m)). n \<le> r)"
    by (intro fresh_smStep) auto
  with Cons.prems show ?case
    using Cons.IH [of "smStep c m"] by (simp add: smInvariant_smStep)
qed

lemma getSegmentsForFlush_markFlushed: "getSegmentsForFlush (markFlushed m) = []"
  by (simp add: getSegmentsForFlush_def markFlushed_def Let_def)

lemma smRun_only_reads: "smRun (replicate k GetSegmentsForFlush) m = m"
  by (induction k) simp_all

text \<open>
  Claim C6. Flushing is non-destructive. \<open>getSegmentsForFlush\<close> only reads, so any number
  of calls in a row leave the state as it is. Across any calls of \<open>addCaption\<close>,
  \<open>finalizeSegment\<close> and \<open>getSegmentsForFlush\<close> without \<open>markFlushed\<close>, every segment a call
  returned is still there when a later call returns: the later result holds a segment equal
  to what the earlier reference then shows, the same utterance (speaker and start) that may
  have grown in text and end; and the later result is at least as long. After
  \<open>markFlushed\<close> the next call returns nothing, and whatever later calls return was created
  after the flush.
\<close>

theorem flush_is_non_destructive:
  assumes "smInvariant m" and "MarkFlushed \<notin> set cs"
  shows "smRun (replicate k GetSegmentsForFlush) m = m
    \<and> (\<forall>r \<in> set (getSegmentsForFlush m).
          \<exists>r' \<in> set (getSegmentsForFlush (smRun cs m)).
            objects (smRun cs m) ! r' = objects (smRun cs m) ! r
            \<and> speaker (objects (smRun cs m) ! r) = speaker (objects m ! r)
            \<and> start (objects (smRun cs m) ! r) = start (objects m ! r))
    \<and> length (getSegmentsForFlush m) \<le> length (getSegmentsForFlush (smRun cs m))
    \<and> getSegmentsForFlush (markFlushed m) = []
    \<and> (\<forall>r \<in> set (getSegmentsForFlush (smRun cs (markFlushed m))).
          length (objects (markFlushed m)) \<le> r)"
proof -
  have "\<exists>r' \<in> set (getSegmentsForFlush (smRun cs m)).
            objects (smRun cs m) ! r' = objects (smRun cs m) ! r
            \<and> speaker (objects (smRun cs m) ! r) = speaker (objects m ! r)
            \<and> start (objects (smRun cs m) ! r) = start (objects m ! r)"
    if r: "r \<in> set (getSegmentsForFlush m)" for r
  proof -
    from assms(1) r have v: "r < length (objects m)"
      by (rule smInvariant_valid)
    with r have "represents m r r"
      by (simp add: represents_def)
    with assms obtain r' where "represents (smRun cs m) r r'"
      using represents_smRun by blast
    with object_identity_smRun [OF v, of cs] show ?thesis
      by (auto simp: represents_def)
  qed
  moreover have "\<forall>r \<in> set (getSegmentsForFlush (smRun cs (markFlushed m))).
          length (objects (markFlushed m)) \<le> r"
    using assms
    by (intro fresh_smRun) (simp_all add: getSegmentsForFlush_markFlushed smInvariant_markFlushed)
  ultimately show ?thesis
    using assms
    by (simp add: smRun_only_reads length_getSegmentsForFlush_smRun getSegmentsForFlush_markFlushed)
qed

theorem flush_is_non_destructive_witness:
  "smInvariant (smRun [AddCaption 1000 ''A'' ''hi''] (newSegmentManager 0))
   \<and> MarkFlushed \<notin> set [AddCaption 2000 ''A'' ''hi there'', FinalizeSegment ''A'',
                              AddCaption 3000 ''B'' ''x'', GetSegmentsForFlush]
   \<and> getSegmentsForFlush (smRun [AddCaption 1000 ''A'' ''hi''] (newSegmentManager 0)) = [0]
   \<and> (\<exists>r'. r' \<in> set (getSegmentsForFlush
          (smRun [AddCaption 2000 ''A'' ''hi there'', FinalizeSegment ''A'',
                  AddCaption 3000 ''B'' ''x'', GetSegmentsForFlush]
             (smRun [AddCaption 1000 ''A'' ''hi''] (newSegmentManager 0))))
        \<and> objects (smRun [AddCaption 2000 ''A'' ''hi there'', FinalizeSegment ''A'',
                  AddCaption 3000 ''B'' ''x'', GetSegmentsForFlush]
             (smRun [AddCaption 1000 ''A'' ''hi''] (newSegmentManager 0))) ! r'
          = \<lparr>speaker = ''A'', text' = ''hi there'', start = 1, end' = 2\<rparr>)
   \<and> getSegmentsForFlush
        (smRun [AddCaption 2000 ''A'' ''hi there'', FinalizeSegment ''A'',
                AddCaption 3000 ''B'' ''x'', GetSegmentsForFlush]
           (markFlushed (smRun [AddCaption 1000 ''A'' ''hi''] (newSegmentManager 0)))) = [3, 4]
   \<and> length (objects (markFlushed (smRun [AddCaption 1000 ''A'' ''hi''] (newSegmentManager 0))))
        \<le> 3"
proof -
  let ?m = "smRun [AddCaption 1000 ''A'' ''hi''] (newSegmentManager 0)"
  let ?cs = "[AddCaption 2000 ''A'' ''hi there'', FinalizeSegment ''A'',
              AddCaption 3000 ''B'' ''x'', GetSegmentsForFlush]"
  have m: "?m = \<lparr>objects = [\<lparr>speaker = ''A'', text' = ''hi'', start = 1, end' = 1\<rparr>],
      sm_segments = [], sm_activeSegments = [(''A'', 0)], segmentIndex = 0, sm_startTime = 0,
      flushedCount = 0\<rparr>"
    by (simp add: newSegmentManager_def addCaption_def)
  have inv: "smInvariant ?m"
    unfolding m by (simp add: smInvariant_def)
  have nm: "MarkFlushed \<notin> set ?cs"
    by simp
  have g0: "getSegmentsForFlush ?m = [0]"
    unfolding m by (simp add: getSegmentsForFlush_def)
  have o: "objects (smRun ?cs ?m) ! 0
      = \<lparr>speaker = ''A'', text' = ''hi there'', start = 1, end' = 2\<rparr>"
    unfolding m by (simp add: addCaption_def finalizeSegment_def)
  have g1: "getSegmentsForFlush (smRun ?cs (markFlushed ?m)) = [3, 4]"
    unfolding m
    by (simp add: markFlushed_def addCaption_def finalizeSegment_def getSegmentsForFlush_def)
  from flush_is_non_destructive [OF inv nm, of 1]
  have "\<exists>r' \<in> set (getSegmentsForFlush (smRun ?cs ?m)).
          objects (smRun ?cs ?m) ! r' = objects (smRun ?cs ?m) ! 0"
    and "\<forall>r \<in> set (getSegmentsForFlush (smRun ?cs (markFlushed ?m))).
          length (objects (markFlushed ?m)) \<le> r"
    unfolding g0 by simp_all
  then show ?thesis
    using inv nm g0 g1 unfolding o by auto
qed

section \<open>The orchestrator's segment list\<close>

lemma setStatus_segments [simp]:
  "bot_segments (fst (setStatus st msg b)) = bot_segments b"
  "startedAt (session (fst (setStatus st msg b))) = startedAt (session b)"
  "meetingId (session (fst (setStatus st msg b))) = meetingId (session b)"
  "sessionId (session (fst (setStatus st msg b))) = sessionId (session b)"
  by (simp_all add: setStatus_def)

lemma leave_flush_segments [simp]:
  "bot_segments (fst (leave_flush now b)) = bot_segments b"
  "startedAt (session (fst (leave_flush now b))) = startedAt (session b)"
  by (simp_all add: leave_flush_def Let_def)

lemma leave_enter_segments [simp]:
  "bot_segments (fst (leave_enter now r b)) = bot_segments b"
  "startedAt (session (fst (leave_enter now r b))) = startedAt (session b)"
  by (simp_all add: leave_enter_def split_def)

lemma leave_resume_segments [simp]:
  "bot_segments (fst (leave_resume now b)) = bot_segments b"
  "startedAt (session (fst (leave_resume now b))) = startedAt (session b)"
  by (simp_all add: leave_resume_def Let_def split: list.splits leaveStage.splits)

lemma handleMeetingEnd_segments [simp]:
  "bot_segments (fst (handleMeetingEnd now b)) = bot_segments b"
  "startedAt (session (fst (handleMeetingEnd now b))) = startedAt (session b)"
  by (simp_all add: handleMeetingEnd_def Let_def split_def)

lemma parseStatus_segments [simp]:
  "bot_segments (fst (parseStatus now t b)) = bot_segments b"
  "startedAt (session (fst (parseStatus now t b))) = startedAt (session b)"
  by (simp_all add: parseStatus_def)

lemma handleCaption_segments:
  "bot_segments (fst (handleCaption d b)) =
     bot_segments b @ [\<lparr>speaker = cd_speaker d, text' = cd_text d,
                        start = cd_timestamp d / 1000, end' = cd_timestamp d / 1000\<rparr>]"
  by (simp add: handleCaption_def Let_def)

lemma parseExtensionLog_segments:
  "bot_segments (fst (parseExtensionLog now t b)) =
     bot_segments b @
       (case matchCaption t of
          None \<Rightarrow> []
        | Some (g1, g2) \<Rightarrow>
            [\<lparr>speaker = trim g1, text' = trim g2,
              start = elapsedSince (startedAt (session b)) now / 1000,
              end' = elapsedSince (startedAt (session b)) now / 1000\<rparr>])"
  by (simp add: parseExtensionLog_def split_def handleCaption_segments split: option.splits)

lemma handleCompletion_segments:
  "bot_segments (fst (handleCompletion now d b)) =
     (case cp_segments d of
        None \<Rightarrow> bot_segments b
      | Some segs \<Rightarrow>
          if segs = [] then bot_segments b
          else map (\<lambda>s. \<lparr>speaker = speaker s, text' = text' s, start = start s, end' = end' s\<rparr>) segs)"
  by (simp add: handleCompletion_def Let_def split_def split: option.splits)

text \<open>
  Claim C10. The orchestrator neither merges nor deduplicates captions. \<open>handleCaption\<close>
  appends one segment whose start and end both are the timestamp in seconds, whatever the
  list already holds; a structured caption message is handed to it as it is, and so is
  every diagnostic line in which the caption pattern matches. Whatever reaches the bot, its
  list stays, or grows by one such segment, or, only for a \<open>completed\<close> message that
  carries a non-empty segment list, is replaced by that list.
\<close>

theorem orchestrator_appends_every_caption:
  "bot_segments (fst (handleCaption d b)) =
     bot_segments b @ [\<lparr>speaker = cd_speaker d, text' = cd_text d,
                        start = cd_timestamp d / 1000, end' = cd_timestamp d / 1000\<rparr>]
   \<and> handleExtensionMessage now (DataCaption d) b = handleCaption d b
   \<and> bot_segments (fst (parseExtensionLog now t b)) =
       bot_segments b @
         (case matchCaption t of
            None \<Rightarrow> []
          | Some (g1, g2) \<Rightarrow>
              [\<lparr>speaker = trim g1, text' = trim g2,
                start = elapsedSince (startedAt (session b)) now / 1000,
                end' = elapsedSince (startedAt (session b)) now / 1000\<rparr>])
   \<and> (bot_segments (fst (botStep now i b)) = bot_segments b
       \<or> (\<exists>seg. bot_segments (fst (botStep now i b)) = bot_segments b @ [seg]
                 \<and> start seg = end' seg)
       \<or> (\<exists>c segs. i = ExtMessage (DataCompleted c) \<and> cp_segments c = Some segs \<and> segs \<noteq> []
             \<and> bot_segments (fst (botStep now i b)) =
                 map (\<lambda>s. \<lparr>speaker = speaker s, text' = text' s, start = start s,
                             end' = end' s\<rparr>) segs))"
proof -
  have step: "bot_segments (fst (botStep now i b)) = bot_segments b
       \<or> (\<exists>seg. bot_segments (fst (botStep now i b)) = bot_segments b @ [seg]
                 \<and> start seg = end' seg)
       \<or> (\<exists>c segs. i = ExtMessage (DataCompleted c) \<and> cp_segments c = Some segs \<and> segs \<noteq> []
             \<and> bot_segments (fst (botStep now i b)) =
                 map (\<lambda>s. \<lparr>speaker = speaker s, text' = text' s, start = start s,
                             end' = end' s\<rparr>) segs)"
  proof (cases i)
    case (LogLine t')
    then show ?thesis
      by (auto simp: botStep_def parseExtensionLog_segments split: option.splits)
  next
    case (ExtMessage x)
    then show ?thesis
      by (cases x)
         (auto simp: botStep_def handleExtensionMessage_def handleCaption_segments
            handleCompletion_segments split: option.splits)
  next
    case FlushTick
    then show ?thesis by (simp add: botStep_def)
  next
    case MaxDurationTimeout
    then show ?thesis by (simp add: botStep_def)
  next
    case (LeaveCall r)
    then show ?thesis by (simp add: botStep_def)
  next
    case LeaveContinues
    then show ?thesis by (simp add: botStep_def)
  qed
  show ?thesis
    using step
    by (simp add: handleCaption_segments parseExtensionLog_segments handleExtensionMessage_def)
qed

section \<open>The registry\<close>

lemma isFinalize_emit [simp]: "filter isFinalize (emitToBackend ev mid m) = []"
  by (simp add: emitToBackend_def)

lemma isLaunch_emit [simp]: "filter isLaunch (emitToBackend ev mid m) = []"
  by (simp add: emitToBackend_def)

lemma finalizeMeeting_done:
  "mid \<in> finalizedMeetings m \<Longrightarrow> finalizeMeeting ok mid sess m = (m, [])"
  by (simp add: finalizeMeeting_def finalizeMeeting_enter_def)

lemma finalizeMeeting_fresh:
  "mid \<notin> finalizedMeetings m \<Longrightarrow>
   finalizeMeeting ok mid sess m =
     (m\<lparr>finalizedMeetings := (if ok then insert mid (finalizedMeetings m) else finalizedMeetings m)\<rparr>,
      [PostFinalize mid (sessionId sess) (session_segments sess)
         (case (startedAt sess, completedAt sess) of
            (Some t0, Some t1) \<Rightarrow> (t1 - t0) / 1000 | _ \<Rightarrow> 0)])"
  by (simp add: finalizeMeeting_def finalizeMeeting_enter_def finalizeMeeting_resume_def)

lemma onCompleted_finalized:
  "finalizedMeetings (fst (onCompleted now ok mid b segs m)) =
     (if mid \<in> finalizedMeetings m \<or> ok then insert mid (finalizedMeetings m)
      else finalizedMeetings m)"
  by (cases "mid \<in> finalizedMeetings m")
     (auto simp: onCompleted_def Let_def finalizeMeeting_done finalizeMeeting_fresh)

lemma onCompleted_posts:
  "filter isFinalize (snd (onCompleted now ok mid b segs m)) =
     (if mid \<in> finalizedMeetings m then []
      else [PostFinalize mid (sessionId (session b)) segs
              (case startedAt (session b) of Some t0 \<Rightarrow> (now - t0) / 1000 | None \<Rightarrow> 0)])"
  by (cases "mid \<in> finalizedMeetings m")
     (auto simp: onCompleted_def Let_def finalizeMeeting_done finalizeMeeting_fresh getSession_def
        split: option.splits)

text \<open>
  Claim C3. For a meeting not yet finalized, the \<open>completed\<close> event delivered twice makes
  exactly one finalize post when the first post succeeds; a second \<open>finalizeMeeting\<close> that
  starts while the first is still waiting for its post issues none either. When the first
  post fails, the meeting is taken out of the finalized set again and the second delivery
  posts the finalize call anew.
\<close>

theorem completed_twice_finalizes_once:
  assumes "mid \<notin> finalizedMeetings m"
  shows "length (filter isFinalize
            (snd (onCompleted t1 True mid b segs m)
             @ snd (onCompleted t2 ok2 mid b segs (fst (onCompleted t1 True mid b segs m))))) = 1
    \<and> snd (finalizeMeeting_enter mid sess (fst (finalizeMeeting_enter mid sess m))) = None
    \<and> mid \<notin> finalizedMeetings (fst (onCompleted t1 False mid b segs m))
    \<and> filter isFinalize
         (snd (onCompleted t2 ok2 mid b segs (fst (onCompleted t1 False mid b segs m))))
       = [PostFinalize mid (sessionId (session b)) segs
            (case startedAt (session b) of Some t0 \<Rightarrow> (t2 - t0) / 1000 | None \<Rightarrow> 0)]"
  using assms
  by (simp add: onCompleted_posts onCompleted_finalized finalizeMeeting_enter_def)

theorem completed_twice_finalizes_once_witness:
  "''m1'' \<notin> finalizedMeetings \<lparr>sessions = [(''m1'', newMeetBot ''bot_1'' ''m1'' ''u'')],
       socketConnected = True, finalizedMeetings = {}\<rparr>
   \<and> length (filter isFinalize
        (snd (onCompleted 5000 True ''m1'' (newMeetBot ''bot_1'' ''m1'' ''u'') []
               \<lparr>sessions = [(''m1'', newMeetBot ''bot_1'' ''m1'' ''u'')],
                socketConnected = True, finalizedMeetings = {}\<rparr>)
         @ snd (onCompleted 6000 True ''m1'' (newMeetBot ''bot_1'' ''m1'' ''u'') []
             (fst (onCompleted 5000 True ''m1'' (newMeetBot ''bot_1'' ''m1'' ''u'') []
               \<lparr>sessions = [(''m1'', newMeetBot ''bot_1'' ''m1'' ''u'')],
                socketConnected = True, finalizedMeetings = {}\<rparr>))))) = 1"
proof -
  let ?m = "\<lparr>sessions = [(''m1'', newMeetBot ''bot_1'' ''m1'' ''u'')],
       socketConnected = True, finalizedMeetings = {}\<rparr>"
  have h: "''m1'' \<notin> finalizedMeetings ?m"
    by simp
  from completed_twice_finalizes_once [OF h, where ?t1.0 = 5000
      and b = "newMeetBot ''bot_1'' ''m1'' ''u''" and segs = "[]" and ?t2.0 = 6000 and ?ok2.0 = True]
  show ?thesis
    using h by simp
qed

section \<open>Starting a session twice\<close>


lemma onBotEvents_status:
  "onBotEvents now ok mid b (map (\<lambda>(st, msg). EvStatus st msg) xs) m
     = (m, concat (map (\<lambda>x. emitToBackend ''bot_status_change'' mid m) xs))"
  by (induction xs) (auto simp: split_def)

lemma join_begin_ok:
  "join_begin b = (b\<lparr>session := (session b)\<lparr>status := Joining\<rparr>\<rparr>, [EvStatus Joining None])"
  by (simp add: join_begin_def setStatus_def truthy_def)

lemma join_setup_ok:
  "join_setup None b =
     (b\<lparr>session := (session b)\<lparr>status := WaitingAdmission\<rparr>, browserContext := True, page := True\<rparr>,
      [EvStatus WaitingAdmission None], None)"
  by (simp add: join_setup_def setStatus_def truthy_def)

lemma startSession_enter_existing:
  "map_of (sessions m) mid = Some b \<Longrightarrow>
   startSession_enter now sid setupError mid u m = (m, [], Returned (getSession b))"
  by (simp add: startSession_enter_def)

lemma startSession_enter_new:
  "map_of (sessions m) mid = None \<Longrightarrow>
   startSession_enter now sid None mid u m =
     (m\<lparr>sessions := AList.update mid
          ((newMeetBot sid mid u)\<lparr>session := (session (newMeetBot sid mid u))\<lparr>status := WaitingAdmission\<rparr>,
              browserContext := True, page := True\<rparr>) (sessions m)\<rparr>,
      emitToBackend ''bot_status_change'' mid m @ LaunchBrowser mid
         # emitToBackend ''bot_status_change'' mid m,
      Waiting)"
  by (simp add: startSession_enter_def join_begin_ok join_setup_ok Let_def emitToBackend_def)


lemma join_resume_ok:
  "join_resume now True b =
     (b\<lparr>session := (session b)\<lparr>status := Recording, startedAt := Some now\<rparr>,
        flushInterval := True, timeoutTimer := True\<rparr>,
      [EvStatus InMeeting None, EvStatus Recording None], None)"
  by (simp add: join_resume_def setStatus_def truthy_def)


lemma startSession_resume_ok:
  "map_of (sessions m) mid = Some b \<Longrightarrow>
   startSession_resume now True mid m =
     (m\<lparr>sessions := AList.update mid
          (b\<lparr>session := (session b)\<lparr>status := Recording, startedAt := Some now\<rparr>,
             flushInterval := True, timeoutTimer := True\<rparr>) (sessions m)\<rparr>,
      emitToBackend ''bot_status_change'' mid m @ emitToBackend ''bot_status_change'' mid m,
      Returned (getSession
          (b\<lparr>session := (session b)\<lparr>status := Recording, startedAt := Some now\<rparr>,
             flushInterval := True, timeoutTimer := True\<rparr>)))"
  by (simp add: startSession_resume_def join_resume_ok emitToBackend_def)


text \<open>
  Claim C4. \<open>startSession\<close> for a meeting that has a session returns that session, with
  its session id, changes nothing in the registry and has no effect outside: no bot is
  created and no browser launched. In particular a second call that arrives while the
  first is still waiting inside \<open>join\<close> returns the session id of the first, which the
  first call returns as well when its join completes, and one browser is launched in all.
\<close>

theorem startSession_is_idempotent:
  assumes "map_of (sessions m) mid = Some b"
    and "map_of (sessions m0) mid0 = None"
  shows "startSession_enter now sid setupError mid u m = (m, [], Returned (getSession b))
    \<and> sessionId (getSession b) = sessionId (session b)
    \<and> (case startSession_enter t1 sid1 None mid0 u1 m0 of
          (m1, fx1, r1) \<Rightarrow>
            r1 = Waiting \<and>
            (case startSession_enter t2 sid2 setupError mid0 u2 m1 of
               (m2, fx2, r2) \<Rightarrow>
                 m2 = m1 \<and> fx2 = [] \<and> (\<exists>s. r2 = Returned s \<and> sessionId s = sid1) \<and>
                 (case startSession_resume t3 True mid0 m2 of
                    (m3, fx3, r3) \<Rightarrow>
                      (\<exists>s. r3 = Returned s \<and> sessionId s = sid1)
                      \<and> filter isLaunch (fx1 @ fx2 @ fx3) = [LaunchBrowser mid0]
                      \<and> map fst (sessions m3) = map fst (sessions m0) @ [mid0])))"
proof -
  let ?b1 = "(newMeetBot sid1 mid0 u1)\<lparr>session := (session (newMeetBot sid1 mid0 u1))\<lparr>status := WaitingAdmission\<rparr>,
              browserContext := True, page := True\<rparr>"
  let ?m1 = "m0\<lparr>sessions := AList.update mid0 ?b1 (sessions m0)\<rparr>"
  have look: "map_of (sessions ?m1) mid0 = Some ?b1"
    by (simp add: update_conv')
  have keys: "map fst (AList.update mid0 x (sessions m0)) = map fst (sessions m0) @ [mid0]" for x
    using assms(2) by (simp add: update_absent)
  have 1: "startSession_enter t1 sid1 None mid0 u1 m0 =
      (?m1, emitToBackend ''bot_status_change'' mid0 m0 @ LaunchBrowser mid0
         # emitToBackend ''bot_status_change'' mid0 m0, Waiting)"
    by (rule startSession_enter_new [OF assms(2)])
  have 2: "startSession_enter t2 sid2 setupError mid0 u2 ?m1 = (?m1, [], Returned (getSession ?b1))"
    by (rule startSession_enter_existing [OF look])
  note 3 = startSession_resume_ok [OF look, of t3]
  show ?thesis
    unfolding 1 2 3 prod.case
    using assms(1)
    by (simp add: startSession_enter_existing getSession_def newMeetBot_def keys)
qed

theorem startSession_is_idempotent_witness:
  "map_of (sessions \<lparr>sessions = [(''m1'', newMeetBot ''bot_1'' ''m1'' ''u'')],
              socketConnected = True, finalizedMeetings = {}\<rparr>) ''m1''
     = Some (newMeetBot ''bot_1'' ''m1'' ''u'')
   \<and> map_of (sessions \<lparr>sessions = [], socketConnected = True, finalizedMeetings = {}\<rparr>) ''m2''
     = None
   \<and> startSession_enter 10 ''bot_2'' None ''m1'' ''u''
        \<lparr>sessions = [(''m1'', newMeetBot ''bot_1'' ''m1'' ''u'')],
         socketConnected = True, finalizedMeetings = {}\<rparr>
      = (\<lparr>sessions = [(''m1'', newMeetBot ''bot_1'' ''m1'' ''u'')],
          socketConnected = True, finalizedMeetings = {}\<rparr>,
         [], Returned (getSession (newMeetBot ''bot_1'' ''m1'' ''u'')))
   \<and> sessionId (getSession (newMeetBot ''bot_1'' ''m1'' ''u'')) = ''bot_1''"
proof -
  let ?m = "\<lparr>sessions = [(''m1'', newMeetBot ''bot_1'' ''m1'' ''u'')],
              socketConnected = True, finalizedMeetings = {}\<rparr>"
  let ?empty = "\<lparr>sessions = [], socketConnected = True, finalizedMeetings = {}\<rparr>"
  have h1: "map_of (sessions ?m) ''m1'' = Some (newMeetBot ''bot_1'' ''m1'' ''u'')"
    by simp
  have h2: "map_of (sessions ?empty) ''m2'' = None"
    by simp
  from startSession_is_idempotent [OF h1 h2, where now = 10 and sid = "''bot_2''"
      and setupError = None and u = "''u''"]
  have "startSession_enter 10 ''bot_2'' None ''m1'' ''u'' ?m
          = (?m, [], Returned (getSession (newMeetBot ''bot_1'' ''m1'' ''u'')))"
    by simp
  then show ?thesis
    using h1 h2 by (simp add: getSession_def newMeetBot_def)
qed

section \<open>A join that times out\<close>





section \<open>One segment for a growing utterance\<close>

lemma start_makeSegment: "start (makeSegment ver t spk txt i) = estimatedStart ver t txt"
  by (cases ver) (simp_all add: makeSegment_def estimatedStart_def Let_def)

lemma set_update_subset: "set (AList.update k v al) \<subseteq> insert (k, v) (set al)"
  by (induction al) auto

lemma one_entry_per_speaker:
  assumes "distinct (map fst al)" and "list_all (\<lambda>(k, g). speaker g = k) al"
    and "map_of al sp = Some g"
  shows "filter (\<lambda>x. speaker x = sp) (map snd al) = [g]"
  using assms
proof (induction al)
  case Nil
  then show ?case by simp
next
  case (Cons p al)
  obtain k v where p: "p = (k, v)" by (cases p)
  from Cons.prems(1,2) p have d: "distinct (map fst al)" and kn: "k \<notin> fst ` set al"
    and named: "list_all (\<lambda>(k, g). speaker g = k) al" and sv: "speaker v = k"
    by auto
  show ?case
  proof (cases "k = sp")
    case True
    with Cons.prems(3) p have vg: "v = g" by simp
    have "speaker x \<noteq> sp" if "x \<in> snd ` set al" for x
    proof -
      from that obtain k' where m: "(k', x) \<in> set al" by auto
      with named have "speaker x = k'" by (auto simp: list_all_iff)
      moreover from m kn True have "k' \<noteq> sp" by force
      ultimately show ?thesis by simp
    qed
    then have "filter (\<lambda>x. speaker x = sp) (map snd al) = []"
      by (auto simp: filter_empty_conv)
    with True sv vg p show ?thesis by simp
  next
    case False
    with Cons.prems(3) p have "map_of al sp = Some g" by simp
    from Cons.IH [OF d named this] False sv p show ?thesis by simp
  qed
qed

lemma processFragment_cases:
  obtains (filtered) "isFiltered ver spk (tx) s"
      "processFragment ver now spk tx s = (s, [])"
  | (exit) "\<not> isFiltered ver spk (tx) s" "hasExitPhrase ver tx"
      "fst (processFragment ver now spk tx s) = fst (leaveMeeting_enter ''exit_phrase'' s)"
  | (accepted) "acceptedFragment ver spk tx s"
      "fst (processFragment ver now spk tx s) =
         mergeSegment spk
           (makeSegment ver ((now - startTime s) / 1000) spk (tx) (segmentCount s + 1))
           (s\<lparr>lastCaption := tx, segmentCount := segmentCount s + 1,
               lastSpeaker := spk\<rparr>)"
proof (cases "isFiltered ver spk (tx) s")
  case True
  then show ?thesis using filtered by (simp add: processFragment_filtered)
next
  case nf: False
  show ?thesis
  proof (cases "hasExitPhrase ver tx")
    case True
    with nf show ?thesis using exit by (simp add: processFragment_exit)
  next
    case False
    with nf have "acceptedFragment ver spk tx s" by (simp add: acceptedFragment_def)
    then show ?thesis using accepted by (simp add: processFragment_accepted)
  qed
qed

lemma mergeSegment_other:
  assumes inv: "agentInvariant s" and ne: "spk \<noteq> sp" and g: "speaker g = spk"
    and noSp: "\<forall>x \<in> set (segments s). speaker x \<noteq> sp"
  shows "agentInvariant (mergeSegment spk g s)
    \<and> (\<forall>x \<in> set (segments (mergeSegment spk g s)). speaker x \<noteq> sp)
    \<and> map_of (activeSegments (mergeSegment spk g s)) sp = map_of (activeSegments s) sp"
proof -
  from inv have d: "distinct (map fst (activeSegments s))"
    and named: "\<forall>p \<in> set (activeSegments s). speaker (snd p) = fst p"
    by (auto simp: agentInvariant_def list_all_iff)
  have keep: "agentInvariant (s\<lparr>activeSegments := AList.update spk v (activeSegments s)\<rparr>)"
    if "speaker v = spk" for v
  proof -
    have "speaker (snd p) = fst p" if "p \<in> set (AList.update spk v (activeSegments s))" for p
      using that set_update_subset [of spk v "activeSegments s"] named \<open>speaker v = spk\<close>
      by auto
    with d show ?thesis
      by (auto simp: agentInvariant_def list_all_iff distinct_update)
  qed
  have look: "map_of (AList.update spk v (activeSegments s)) sp = map_of (activeSegments s) sp" for v
    using ne by (simp add: update_conv')
  show ?thesis
  proof (cases "map_of (activeSegments s) spk")
    case None
    with keep [OF g] look noSp show ?thesis
      by (simp add: mergeSegment_def agentInvariant_def)
  next
    case (Some e)
    then have "(spk, e) \<in> set (activeSegments s)" by (rule map_of_SomeD)
    with named have se: "speaker e = spk" by force
    have k1: "agentInvariant (s\<lparr>activeSegments := AList.update spk
        (e\<lparr>text' := text' g, end' := end' g,
           wordCount := (case wordCount g of None \<Rightarrow> wordCount e | Some wc \<Rightarrow> Some wc)\<rparr>)
        (activeSegments s)\<rparr>)"
      by (rule keep) (simp add: se)
    from keep [OF g] k1 look noSp se ne Some show ?thesis
      by (simp add: mergeSegment_def agentInvariant_def)
  qed
qed

lemma step_other:
  assumes inv: "agentInvariant s" and noSp: "\<forall>x \<in> set (segments s). speaker x \<noteq> sp"
    and other: "\<not> (spk = sp \<and> acceptedFragment ver spk tx s)"
  shows "agentInvariant (fst (processFragment ver now spk tx s))
    \<and> (\<forall>x \<in> set (segments (fst (processFragment ver now spk tx s))). speaker x \<noteq> sp)
    \<and> map_of (activeSegments (fst (processFragment ver now spk tx s))) sp
        = map_of (activeSegments s) sp
    \<and> startTime (fst (processFragment ver now spk tx s)) = startTime s"
proof (cases rule: processFragment_cases [of ver spk tx s now])
  case filtered
  with inv noSp show ?thesis by simp
next
  case exit
  with inv noSp show ?thesis by (simp add: agentInvariant_def leaveMeeting_enter_def)
next
  case accepted
  with other have ne: "spk \<noteq> sp" by auto
  let ?s1 = "s\<lparr>lastCaption := tx, segmentCount := segmentCount s + 1,
               lastSpeaker := spk\<rparr>"
  let ?g = "makeSegment ver ((now - startTime s) / 1000) spk (tx) (segmentCount s + 1)"
  from inv have i1: "agentInvariant ?s1" by (simp add: agentInvariant_def)
  from noSp have n1: "\<forall>x \<in> set (segments ?s1). speaker x \<noteq> sp" by simp
  have sg: "speaker ?g = spk" by simp
  from mergeSegment_other [OF i1 ne sg n1] show ?thesis
    by (simp add: accepted(2))
qed


lemma step_same:
  assumes inv: "agentInvariant s" and noSp: "\<forall>x \<in> set (segments s). speaker x \<noteq> sp"
    and acc: "acceptedFragment ver sp tx s"
    and ext: "\<And>e. map_of (activeSegments s) sp = Some e \<Longrightarrow> startsWith (tx) (text' e)"
  shows "agentInvariant (fst (processFragment ver now sp tx s))
    \<and> (\<forall>x \<in> set (segments (fst (processFragment ver now sp tx s))). speaker x \<noteq> sp)
    \<and> startTime (fst (processFragment ver now sp tx s)) = startTime s
    \<and> (\<exists>g. map_of (activeSegments (fst (processFragment ver now sp tx s))) sp = Some g
           \<and> text' g = tx \<and> end' g = (now - startTime s) / 1000
           \<and> start g = (case map_of (activeSegments s) sp of
                          None \<Rightarrow> estimatedStart ver ((now - startTime s) / 1000) (tx)
                        | Some e \<Rightarrow> start e))"
proof -
  from inv have d: "distinct (map fst (activeSegments s))"
    and named: "\<forall>p \<in> set (activeSegments s). speaker (snd p) = fst p"
    by (auto simp: agentInvariant_def list_all_iff)
  have keep: "agentInvariant (s'\<lparr>activeSegments := AList.update sp v (activeSegments s)\<rparr>)"
    if "speaker v = sp" for v and s' :: botState
  proof -
    have "speaker (snd p) = fst p" if "p \<in> set (AList.update sp v (activeSegments s))" for p
      using that set_update_subset [of sp v "activeSegments s"] named \<open>speaker v = sp\<close>
      by auto
    with d show ?thesis
      by (auto simp: agentInvariant_def list_all_iff distinct_update)
  qed
  show ?thesis
  proof (cases "map_of (activeSegments s) sp")
    case None
    have "speaker (makeSegment ver ((now - startTime s) / 1000) sp (tx)
        (segmentCount s + 1)) = sp"
      by simp
    from keep [OF this] None noSp show ?thesis
      by (simp add: processFragment_new [OF acc None] update_conv' start_makeSegment)
  next
    case (Some e)
    then have "(sp, e) \<in> set (activeSegments s)" by (rule map_of_SomeD)
    with named have se: "speaker e = sp" by force
    from ext [OF Some] have c: "startsWith (tx) (take 20 (text' e))"
      by (rule startsWith_take)
    have "speaker (e\<lparr>text' := tx, end' := (now - startTime s) / 1000,
              wordCount := (case ver of V1 \<Rightarrow> wordCount e
                            | V2 \<Rightarrow> Some (length (splitWords [] (tx))))\<rparr>) = sp"
      by (simp add: se)
    from keep [OF this] Some noSp show ?thesis
      by (simp add: processFragment_continue [OF acc Some c] update_conv')
  qed
qed

lemma strictChain_Cons:
  "strictChain (x # ys) \<Longrightarrow> strictChain ys"
  by (cases ys) simp_all

lemma strictChain_head:
  "strictChain (x # y # zs) \<Longrightarrow> startsWith y x"
  by simp

lemma observe_chain:
  assumes "agentInvariant s" and "\<forall>x \<in> set (segments s). speaker x \<noteq> sp"
    and "strictChain ((case map_of (activeSegments s) sp of None \<Rightarrow> [] | Some e \<Rightarrow> [text' e])
           @ map snd (acceptedOf ver sp obs s))"
  shows "agentInvariant (observe ver obs s)
    \<and> (\<forall>x \<in> set (segments (observe ver obs s)). speaker x \<noteq> sp)
    \<and> startTime (observe ver obs s) = startTime s
    \<and> (if acceptedOf ver sp obs s = []
        then map_of (activeSegments (observe ver obs s)) sp = map_of (activeSegments s) sp
        else (\<exists>g. map_of (activeSegments (observe ver obs s)) sp = Some g
                \<and> text' g = snd (last (acceptedOf ver sp obs s))
                \<and> end' g = (fst (last (acceptedOf ver sp obs s)) - startTime s) / 1000
                \<and> start g = (case map_of (activeSegments s) sp of
                     None \<Rightarrow> estimatedStart ver
                               ((fst (hd (acceptedOf ver sp obs s)) - startTime s) / 1000)
                               (snd (hd (acceptedOf ver sp obs s)))
                   | Some e \<Rightarrow> start e)))"
  using assms
proof (induction obs arbitrary: s)
  case Nil
  then show ?case by simp
next
  case (Cons ob obs)
  obtain now node where ob: "ob = (now, node)"
    by (cases ob) auto
  let ?spk = "fst (getSpeaker ver node s)" and ?q = "snd (getSpeaker ver node s)"
    and ?tx = "getText node"
  let ?s1 = "fst (processFragment ver now ?spk ?tx ?q)"
  let ?rest = "acceptedOf ver sp obs ?s1"
  have pc: "fst (processCaption ver now node s) = ?s1"
    by (simp add: processCaption_fragment)
  from Cons.prems(1,2) have q: "agentInvariant ?q" "\<forall>x \<in> set (segments ?q). speaker x \<noteq> sp"
    by (simp_all add: agentInvariant_def)
  have mq: "map_of (activeSegments ?q) sp = map_of (activeSegments s) sp"
    "startTime ?q = startTime s"
    by simp_all
  have run: "observe ver (ob # obs) s = observe ver obs ?s1"
    by (simp add: ob pc)
  show ?case
  proof (cases "?spk = sp \<and> accepted ver node s")
    case False
    then have o: "\<not> (?spk = sp \<and> acceptedFragment ver ?spk ?tx ?q)"
      by (simp add: accepted_fragment)
    from step_other [OF q o, of now]
    have s1: "agentInvariant ?s1" "\<forall>x \<in> set (segments ?s1). speaker x \<noteq> sp"
      "map_of (activeSegments ?s1) sp = map_of (activeSegments s) sp"
      "startTime ?s1 = startTime s"
      by (simp_all add: mq)
    from False have acc: "acceptedOf ver sp (ob # obs) s = ?rest"
      by (auto simp: ob pc)
    from Cons.prems(3) have "strictChain
        ((case map_of (activeSegments ?s1) sp of None \<Rightarrow> [] | Some e \<Rightarrow> [text' e])
         @ map snd ?rest)"
      by (simp only: acc s1(3))
    from Cons.IH [OF s1(1,2) this] show ?thesis
      unfolding acc run s1(3) s1(4) .
  next
    case True
    then have spk: "?spk = sp" and a: "acceptedFragment ver sp ?tx ?q"
      by (auto simp: accepted_fragment)
    have s1eq: "?s1 = fst (processFragment ver now sp ?tx ?q)"
      by (simp add: spk)
    from True have acc: "acceptedOf ver sp (ob # obs) s = (now, ?tx) # ?rest"
      by (simp add: ob pc)
    have ext: "startsWith ?tx (text' e)"
      if "map_of (activeSegments ?q) sp = Some e" for e
      using Cons.prems(3) that by (simp add: acc)
    from step_same [OF q a ext, of now]
    obtain g where s1: "agentInvariant ?s1" "\<forall>x \<in> set (segments ?s1). speaker x \<noteq> sp"
      "startTime ?s1 = startTime s"
      and g: "map_of (activeSegments ?s1) sp = Some g" "text' g = ?tx"
        "end' g = (now - startTime s) / 1000"
        "start g = (case map_of (activeSegments s) sp of
                          None \<Rightarrow> estimatedStart ver ((now - startTime s) / 1000) ?tx
                        | Some e \<Rightarrow> start e)"
      unfolding s1eq mq by blast
    have "strictChain (?tx # map snd ?rest)"
    proof (cases "map_of (activeSegments s) sp")
      case None
      with Cons.prems(3) show ?thesis by (simp add: acc)
    next
      case (Some e)
      with Cons.prems(3) show ?thesis by (simp add: acc)
    qed
    then have ch: "strictChain
        ((case map_of (activeSegments ?s1) sp of None \<Rightarrow> [] | Some e \<Rightarrow> [text' e])
         @ map snd ?rest)"
      by (simp add: g)
    note IH = Cons.IH [OF s1(1,2) ch]
    have ne: "acceptedOf ver sp (ob # obs) s \<noteq> []"
      and h: "hd (acceptedOf ver sp (ob # obs) s) = (now, ?tx)"
      by (simp_all add: acc)
    from IH have f: "agentInvariant (observe ver obs ?s1)"
      "\<forall>x \<in> set (segments (observe ver obs ?s1)). speaker x \<noteq> sp"
      "startTime (observe ver obs ?s1) = startTime s"
      by (simp_all add: s1(3))
    have "\<exists>g'. map_of (activeSegments (observe ver obs ?s1)) sp = Some g'
        \<and> text' g' = snd (last (acceptedOf ver sp (ob # obs) s))
        \<and> end' g' = (fst (last (acceptedOf ver sp (ob # obs) s)) - startTime s) / 1000
        \<and> start g' = start g"
    proof (cases "?rest = []")
      case True
      with IH have "map_of (activeSegments (observe ver obs ?s1)) sp = Some g"
        by (simp add: g(1))
      moreover from True have "last (acceptedOf ver sp (ob # obs) s) = (now, ?tx)"
        by (simp add: acc)
      ultimately show ?thesis
        using g(2,3) by auto
    next
      case False
      with IH obtain g' where "map_of (activeSegments (observe ver obs ?s1)) sp = Some g'"
        "text' g' = snd (last ?rest)" "end' g' = (fst (last ?rest) - startTime ?s1) / 1000"
        "start g' = start g"
        by (auto simp: g(1))
      moreover from False have "last (acceptedOf ver sp (ob # obs) s) = last ?rest"
        by (simp add: acc)
      ultimately show ?thesis
        by (auto simp: s1(3))
    qed
    then obtain g' where g': "map_of (activeSegments (observe ver obs ?s1)) sp = Some g'"
        "text' g' = snd (last (acceptedOf ver sp (ob # obs) s))"
        "end' g' = (fst (last (acceptedOf ver sp (ob # obs) s)) - startTime s) / 1000"
        "start g' = start g"
      by blast
    have "start g' = (case map_of (activeSegments s) sp of
                     None \<Rightarrow> estimatedStart ver
                               ((fst (hd (acceptedOf ver sp (ob # obs) s)) - startTime s) / 1000)
                               (snd (hd (acceptedOf ver sp (ob # obs) s)))
                   | Some e \<Rightarrow> start e)"
      unfolding g'(4) g(4) h by (simp split: option.splits)
    with g'(1,2,3) f ne show ?thesis
      unfolding run by auto
  qed
qed


lemma activeValue_addCaption:
  assumes "smInvariant m"
  shows "activeValue sp (addCaption now spk tx m) =
     (if spk = sp
      then Some (case activeValue sp m of
                   None \<Rightarrow> \<lparr>speaker = sp, text' = tx, start = (now - sm_startTime m) / 1000,
                             end' = (now - sm_startTime m) / 1000\<rparr>
                 | Some v \<Rightarrow> v\<lparr>text' := tx, end' := (now - sm_startTime m) / 1000\<rparr>)
      else activeValue sp m)"
proof (cases "map_of (sm_activeSegments m) spk")
  case None
  have "objects m ! a = (objects m @ [x]) ! a" if "map_of (sm_activeSegments m) sp = Some a" for a x
    using smInvariant_active_valid [OF assms that] by (simp add: nth_append)
  with None show ?thesis
    by (auto simp: activeValue_def addCaption_def Let_def update_conv' split: option.splits)
next
  case (Some a)
  from assms Some have av: "a < length (objects m)"
    by (rule smInvariant_active_valid)
  have other: "a' \<noteq> a" if "map_of (sm_activeSegments m) sp = Some a'" "spk \<noteq> sp" for a'
  proof
    assume "a' = a"
    from assms have "distinct (map snd (sm_activeSegments m))"
      by (simp add: smInvariant_def)
    moreover from that(1) Some have "(sp, a') \<in> set (sm_activeSegments m)"
      "(spk, a) \<in> set (sm_activeSegments m)"
      by (auto dest: map_of_SomeD)
    ultimately show False
      using \<open>a' = a\<close> that(2)
      by (metis distinct_map fst_conv inj_onD snd_conv)
  qed
  show ?thesis
  proof (cases "spk = sp")
    case True
    with Some av show ?thesis
      by (simp add: activeValue_def addCaption_def)
  next
    case False
    show ?thesis
    proof (cases "map_of (sm_activeSegments m) sp")
      case None
      with Some False show ?thesis
        by (simp add: activeValue_def addCaption_def)
    next
      case (Some a')
      from other [OF Some False] have "a \<noteq> a'" by simp
      with Some \<open>map_of (sm_activeSegments m) spk = Some a\<close> False show ?thesis
        by (simp add: activeValue_def addCaption_def)
    qed
  qed
qed

lemma addCaption_keeps:
  "sm_segments (addCaption now spk tx m) = sm_segments m"
  "sm_startTime (addCaption now spk tx m) = sm_startTime m"
  "flushedCount (addCaption now spk tx m) = flushedCount m"
  "length (objects m) \<le> length (objects (addCaption now spk tx m))"
  by (simp_all add: addCaption_def Let_def split: option.splits)

lemma addCaptions_Cons:
  "addCaptions ((now, spk, tx) # caps) m = addCaptions caps (addCaption now spk tx m)"
  by (simp add: addCaptions_def)

lemma addCaptions_keeps:
  "smInvariant m \<Longrightarrow> smInvariant (addCaptions caps m)"
  "sm_segments (addCaptions caps m) = sm_segments m"
  "sm_startTime (addCaptions caps m) = sm_startTime m"
proof -
  show "smInvariant m \<Longrightarrow> smInvariant (addCaptions caps m)"
    by (simp add: addCaptions_def smInvariant_smRun)
  show "sm_segments (addCaptions caps m) = sm_segments m"
    by (induction caps arbitrary: m) (auto simp: addCaptions_def addCaption_keeps)
  show "sm_startTime (addCaptions caps m) = sm_startTime m"
    by (induction caps arbitrary: m) (auto simp: addCaptions_def addCaption_keeps)
qed

lemma activeValue_addCaptions:
  assumes "smInvariant m"
  shows "activeValue sp (addCaptions caps m) =
     (if captionsOf sp caps = [] then activeValue sp m
      else Some ((case activeValue sp m of
                    None \<Rightarrow> \<lparr>speaker = sp, text' = snd (hd (captionsOf sp caps)),
                              start = (fst (hd (captionsOf sp caps)) - sm_startTime m) / 1000,
                              end' = (fst (hd (captionsOf sp caps)) - sm_startTime m) / 1000\<rparr>
                  | Some v \<Rightarrow> v)
                 \<lparr>text' := snd (last (captionsOf sp caps)),
                   end' := (fst (last (captionsOf sp caps)) - sm_startTime m) / 1000\<rparr>))"
  using assms
proof (induction caps arbitrary: m)
  case Nil
  then show ?case by (simp add: addCaptions_def captionsOf_def)
next
  case (Cons c caps)
  obtain now spk tx where c: "c = (now, spk, tx)" by (cases c) auto
  let ?m1 = "addCaption now spk tx m"
  from Cons.prems have inv1: "smInvariant ?m1" by (rule smInvariant_addCaption)
  note IH = Cons.IH [OF inv1, unfolded addCaption_keeps(2)]
  note step = activeValue_addCaption [OF Cons.prems, of sp now spk tx]
  have run: "addCaptions (c # caps) m = addCaptions caps ?m1"
    by (simp add: c addCaptions_Cons)
  show ?case
  proof (cases "spk = sp")
    case False
    then have cs: "captionsOf sp (c # caps) = captionsOf sp caps"
      by (simp add: captionsOf_def c)
    from step False have st: "activeValue sp ?m1 = activeValue sp m"
      by simp
    from IH show ?thesis
      unfolding run cs st .
  next
    case True
    then have cs: "captionsOf sp (c # caps) = (now, tx) # captionsOf sp caps"
      by (simp add: captionsOf_def c)
    from step True have st: "activeValue sp ?m1 =
        Some (case activeValue sp m of
                   None \<Rightarrow> \<lparr>speaker = sp, text' = tx, start = (now - sm_startTime m) / 1000,
                             end' = (now - sm_startTime m) / 1000\<rparr>
                 | Some v \<Rightarrow> v\<lparr>text' := tx, end' := (now - sm_startTime m) / 1000\<rparr>)"
      by simp
    from IH show ?thesis
      unfolding run cs st
      by (cases "activeValue sp m"; cases "captionsOf sp caps = []"; simp)
  qed
qed

lemma finalizeSegment_after_captions:
  assumes "captionsOf sp caps \<noteq> []"
  shows "case finalizeSegment sp (addCaptions caps (newSegmentManager t0)) of
           (m', r) \<Rightarrow>
             \<exists>a. r = Some a
               \<and> objects m' ! a =
                   \<lparr>speaker = sp, text' = snd (last (captionsOf sp caps)),
                    start = (fst (hd (captionsOf sp caps)) - t0) / 1000,
                    end' = (fst (last (captionsOf sp caps)) - t0) / 1000\<rparr>
               \<and> readSegments m' (sm_segments m') =
                   [\<lparr>speaker = sp, text' = snd (last (captionsOf sp caps)),
                     start = (fst (hd (captionsOf sp caps)) - t0) / 1000,
                     end' = (fst (last (captionsOf sp caps)) - t0) / 1000\<rparr>]"
proof -
  let ?m = "addCaptions caps (newSegmentManager t0)"
  let ?v = "\<lparr>speaker = sp, text' = snd (last (captionsOf sp caps)),
             start = (fst (hd (captionsOf sp caps)) - t0) / 1000,
             end' = (fst (last (captionsOf sp caps)) - t0) / 1000\<rparr>"
  have inv: "smInvariant ?m"
    by (simp add: addCaptions_keeps smInvariant_new)
  have "activeValue sp (newSegmentManager t0) = None"
    by (simp add: activeValue_def newSegmentManager_def)
  with assms activeValue_addCaptions [OF smInvariant_new, of sp caps t0]
  have "activeValue sp ?m = Some ?v"
    by (simp add: newSegmentManager_def)
  then obtain a where a: "map_of (sm_activeSegments ?m) sp = Some a" "objects ?m ! a = ?v"
    by (auto simp: activeValue_def)
  from inv a(1) have av: "a < length (objects ?m)"
    by (rule smInvariant_active_valid)
  have segs: "sm_segments ?m = []"
    by (simp add: addCaptions_keeps newSegmentManager_def)
  from a av segs show ?thesis
    by (simp add: finalizeSegment_def readSegments_def nth_append)
qed


text \<open>
  Claim C1, as amended. Take a session without segments and any nodes handed to
  \<open>processCaption\<close>; suppose that of those which \<open>getSpeaker\<close> gives to a speaker some are
  accepted and that each accepted text strictly extends the one accepted before for that
  speaker. Then the final segments, as \<open>leaveMeeting\<close> collects them after these calls, hold
  exactly one segment of that speaker: its text is the last accepted text, its end is the elapsed
  time of the last accepted fragment, and its start is the start stamped on the first one.
  In the earlier content script that stamp is the elapsed time of the first fragment; in
  the current one it is an estimate, the elapsed time less the greater of one second and
  the word count divided by 2.5, and not below zero. For \<open>SegmentManager\<close>, after any
  captions of which some are of the speaker, \<open>finalizeSegment\<close> returns and pushes one
  segment with the last text, starting at the first and ending at the last caption time.
\<close>

theorem one_segment_per_growing_utterance:
  assumes "segments s = []" and "activeSegments s = []"
    and "acceptedOf ver sp obs s \<noteq> []"
    and "strictChain (map snd (acceptedOf ver sp obs s))"
    and "captionsOf sp caps \<noteq> []"
  shows "(\<exists>g. filter (\<lambda>x. speaker x = sp)
               (collectFinalSegments (observe ver obs s)) = [g]
            \<and> text' g = snd (last (acceptedOf ver sp obs s))
            \<and> end' g = (fst (last (acceptedOf ver sp obs s)) - startTime s) / 1000
            \<and> start g = estimatedStart ver
                 ((fst (hd (acceptedOf ver sp obs s)) - startTime s) / 1000)
                 (snd (hd (acceptedOf ver sp obs s))))
    \<and> estimatedStart V1 t txt = t
    \<and> estimatedStart V2 t txt = max 0 (t - max 1 (real (length (splitWords [] txt)) / 2.5))
    \<and> (case finalizeSegment sp (addCaptions caps (newSegmentManager t0)) of
          (m', res) \<Rightarrow>
             \<exists>a. res = Some a
               \<and> objects m' ! a =
                   \<lparr>speaker = sp, text' = snd (last (captionsOf sp caps)),
                    start = (fst (hd (captionsOf sp caps)) - t0) / 1000,
                    end' = (fst (last (captionsOf sp caps)) - t0) / 1000\<rparr>
               \<and> readSegments m' (sm_segments m') =
                   [\<lparr>speaker = sp, text' = snd (last (captionsOf sp caps)),
                     start = (fst (hd (captionsOf sp caps)) - t0) / 1000,
                     end' = (fst (last (captionsOf sp caps)) - t0) / 1000\<rparr>])"
proof -
  let ?s' = "observe ver obs s"
  from assms(1,2) have inv: "agentInvariant s" and noSp: "\<forall>x \<in> set (segments s). speaker x \<noteq> sp"
    and none: "map_of (activeSegments s) sp = None"
    by (simp_all add: agentInvariant_def)
  from assms(4) none have ch: "strictChain
      ((case map_of (activeSegments s) sp of None \<Rightarrow> [] | Some e \<Rightarrow> [text' e])
       @ map snd (acceptedOf ver sp obs s))"
    by simp
  from observe_chain [OF inv noSp ch] assms(3) none
  obtain g where inv': "agentInvariant ?s'"
    and noSp': "\<forall>x \<in> set (segments ?s'). speaker x \<noteq> sp"
    and g: "map_of (activeSegments ?s') sp = Some g"
      "text' g = snd (last (acceptedOf ver sp obs s))"
      "end' g = (fst (last (acceptedOf ver sp obs s)) - startTime s) / 1000"
      "start g = estimatedStart ver
                 ((fst (hd (acceptedOf ver sp obs s)) - startTime s) / 1000)
                 (snd (hd (acceptedOf ver sp obs s)))"
    by auto
  from inv' have "filter (\<lambda>x. speaker x = sp) (map snd (activeSegments ?s')) = [g]"
    by (intro one_entry_per_speaker g(1)) (simp_all add: agentInvariant_def)
  moreover from noSp' have "filter (\<lambda>x. speaker x = sp) (segments ?s') = []"
    by (auto simp: filter_empty_conv)
  ultimately have "filter (\<lambda>x. speaker x = sp)
      (collectFinalSegments ?s') = [g]"
    by (simp add: collectFinalSegments_def)
  with g(2,3,4) finalizeSegment_after_captions [OF assms(5), of t0] show ?thesis
    by (auto simp: estimatedStart_def)
qed

lemma scenario_second_accepted:
  "accepted ver (named ''Alice'' ''Hi there, everyone'')
     (fst (processCaption ver now (named ''Alice'' ''Hi there'') (recordingState ver t0)))"
proof -
  have "acceptedFragment ver (fst (getSpeaker ver (named ''Alice'' ''Hi there'') (recordingState ver t0)))
      (getText (named ''Alice'' ''Hi there''))
      (snd (getSpeaker ver (named ''Alice'' ''Hi there'') (recordingState ver t0)))"
    using scenario_first_accepted [of ver t0] by (simp add: accepted_fragment)
  then have "lastCaption (fst (processCaption ver now (named ''Alice'' ''Hi there'')
      (recordingState ver t0))) = ''Hi there''"
    by (simp add: processCaption_fragment processFragment_accepted scenario_texts)
  then show ?thesis
    by (simp add: accepted_fragment carriesName_getSpeaker [OF scenario_carries(1)]
        acceptedFragment_def isFiltered_def scenario_texts scenario_not_noise
        scenario_no_exit scenario_names)
qed

theorem one_segment_per_growing_utterance_witness:
  "segments (recordingState V2 0) = [] \<and> activeSegments (recordingState V2 0) = []
   \<and> acceptedOf V2 ''Alice''
      [(1000, named ''Alice'' ''Hi there''), (2000, named ''Alice'' ''Hi there, everyone'')]
      (recordingState V2 0) = [(1000, ''Hi there''), (2000, ''Hi there, everyone'')]
   \<and> strictChain [''Hi there'', ''Hi there, everyone'']
   \<and> captionsOf ''Alice'' [(1000, ''Alice'', ''Hi there''), (2000, ''Alice'', ''Hi there, everyone'')]
       = [(1000, ''Hi there''), (2000, ''Hi there, everyone'')]
   \<and> (\<exists>g. filter (\<lambda>x. speaker x = ''Alice'')
             (collectFinalSegments
                (observe V2 [(1000, named ''Alice'' ''Hi there''),
                             (2000, named ''Alice'' ''Hi there, everyone'')] (recordingState V2 0)))
            = [g]
          \<and> text' g = ''Hi there, everyone'' \<and> end' g = 2 \<and> start g = 0)
   \<and> readSegments
        (fst (finalizeSegment ''Alice''
           (addCaptions [(1000, ''Alice'', ''Hi there''), (2000, ''Alice'', ''Hi there, everyone'')]
              (newSegmentManager 0))))
        (sm_segments (fst (finalizeSegment ''Alice''
           (addCaptions [(1000, ''Alice'', ''Hi there''), (2000, ''Alice'', ''Hi there, everyone'')]
              (newSegmentManager 0)))))
       = [\<lparr>speaker = ''Alice'', text' = ''Hi there, everyone'', start = 1, end' = 2\<rparr>]"
proof -
  let ?obs = "[(1000, named ''Alice'' ''Hi there''), (2000, named ''Alice'' ''Hi there, everyone'')]"
  let ?caps = "[(1000, ''Alice'', ''Hi there''), (2000, ''Alice'', ''Hi there, everyone'')]"
  have sp: "fst (getSpeaker V2 (named ''Alice'' c) s) = ''Alice''" for c s
    by (simp add: carriesName_getSpeaker [OF scenario_carries(1)])
  have acc: "acceptedOf V2 ''Alice'' ?obs (recordingState V2 0)
      = [(1000, ''Hi there''), (2000, ''Hi there, everyone'')]"
    by (simp add: scenario_first_accepted scenario_second_accepted scenario_texts sp)
  have ch: "strictChain [''Hi there'', ''Hi there, everyone'']"
    by (simp add: scenario_prefix)
  have caps: "captionsOf ''Alice'' ?caps = [(1000, ''Hi there''), (2000, ''Hi there, everyone'')]"
    by (simp add: captionsOf_def)
  have wc: "length (splitWords [] ''Hi there'') = 2"
    by code_simp
  have h3: "acceptedOf V2 ''Alice'' ?obs (recordingState V2 0) \<noteq> []"
    and h4: "strictChain (map snd (acceptedOf V2 ''Alice'' ?obs (recordingState V2 0)))"
    and h5: "captionsOf ''Alice'' ?caps \<noteq> []"
    unfolding acc caps using ch by simp_all
  from one_segment_per_growing_utterance [of "recordingState V2 0" V2 "''Alice''" ?obs ?caps,
      OF _ _ h3 h4 h5]
  show ?thesis
    unfolding acc caps using ch
    by (simp add: estimatedStart_def wc addCaptions_def addCaption_def finalizeSegment_def
        readSegments_def newSegmentManager_def)
qed

text \<open>
  In the current content script the start is not the elapsed time of the first fragment:
  one fragment of two words seen ten seconds into the session gives a segment that starts
  at nine.
\<close>

theorem estimated_start_counterexample:
  "acceptedOf V2 ''Alice'' [(10000, named ''Alice'' ''Hi there'')] (recordingState V2 0)
     = [(10000, ''Hi there'')]
   \<and> map start (collectFinalSegments
        (observe V2 [(10000, named ''Alice'' ''Hi there'')] (recordingState V2 0))) = [9]
   \<and> (10000 - startTime (recordingState V2 0)) / 1000 = 10"
proof -
  let ?q = "snd (getSpeaker V2 (named ''Alice'' ''Hi there'') (recordingState V2 0))"
  have wc: "length (splitWords [] ''Hi there'') = 2"
    by code_simp
  have sp: "fst (getSpeaker V2 (named ''Alice'' c) s) = ''Alice''" for c s
    by (simp add: carriesName_getSpeaker [OF scenario_carries(1)])
  have a: "acceptedFragment V2 ''Alice'' ''Hi there'' ?q"
    by (simp add: scenario_first_fragment)
  have m: "map_of (activeSegments ?q) ''Alice'' = None"
    by simp
  have est: "estimatedStart V2 10 ''Hi there'' = 9"
    unfolding estimatedStart_def version.case wc by simp
  have pc: "processCaption V2 10000 (named ''Alice'' ''Hi there'') (recordingState V2 0)
      = processFragment V2 10000 ''Alice'' ''Hi there'' ?q"
    by (simp add: processCaption_fragment sp scenario_texts)
  show ?thesis
    by (simp add: scenario_first_accepted sp pc processFragment_new [OF a m]
        collectFinalSegments_def scenario_texts start_makeSegment est del: splitWords.simps)
qed

end
